theory Spec2Isabelle
  imports Complex_Main
begin

chapter \<open>SerialLog: a serial poller with a live plot\<close>

text \<open>
  A shallow embedding of \<^verbatim>\<open>src/SerialLog.py\<close>. Python objects become records, the
  methods of \<^verbatim>\<open>PollSerial\<close> and \<^verbatim>\<open>CanvasTooltip\<close> become functions that take the
  object's state and return the new one, and every call of \<^verbatim>\<open>time.perf_counter()\<close>
  becomes an argument \<open>now\<close>.

  Conventions of the embedding:
  \<^item> Python \<^verbatim>\<open>int\<close> is \<^typ>\<open>int\<close>; a \<^verbatim>\<open>str\<close> is a \<^typ>\<open>string\<close> of 8-bit characters
    (code points below 256);
  \<^item> a Python \<^verbatim>\<open>float\<close> is a \<open>pyfloat\<close>: a real number, or one of the three special
    values. Arithmetic on the finite values is exact: rounding to 53 bits is not part of
    the model;
  \<^item> what a method prints on standard output is left out.
\<close>

section \<open>Configuration\<close>

definition MAX_POINTS :: nat where
  "MAX_POINTS = 2000"

definition GRID_LINES :: nat where
  "GRID_LINES = 5"

definition LEGEND_GAP :: int where
  "LEGEND_GAP = 12"

definition TOOLTIP_OFFSET :: int where
  "TOOLTIP_OFFSET = 8"

section \<open>Library values: bounded deques, floats, strings\<close>

subsection \<open>\<^verbatim>\<open>collections.deque(maxlen=n)\<close>\<close>

text \<open>
  A bounded deque keeps its bound with it. \<^verbatim>\<open>append\<close> adds on the right and, when the
  deque then holds more than \<^verbatim>\<open>maxlen\<close> items, drops one on the left.
\<close>

record 'a deque =
  maxlen :: nat
  items :: "'a list"

definition new_deque :: "nat \<Rightarrow> 'a deque" where
  "new_deque n = \<lparr>maxlen = n, items = []\<rparr>"

definition deque_append :: "'a deque \<Rightarrow> 'a \<Rightarrow> 'a deque" where
  "deque_append d x =
     (let l = items d @ [x]
      in d\<lparr>items := (if maxlen d < length l then tl l else l)\<rparr>)"

definition deque_clear :: "'a deque \<Rightarrow> 'a deque" where
  "deque_clear d = d\<lparr>items := []\<rparr>"

subsection \<open>Floats\<close>

datatype pyfloat = Fin real | PInf | NInf | NaN

fun fabs :: "pyfloat \<Rightarrow> pyfloat" where
  "fabs (Fin r) = Fin \<bar>r\<bar>"
| "fabs PInf = PInf"
| "fabs NInf = PInf"
| "fabs NaN = NaN"

fun fneg :: "pyfloat \<Rightarrow> pyfloat" where
  "fneg (Fin r) = Fin (- r)"
| "fneg PInf = NInf"
| "fneg NInf = PInf"
| "fneg NaN = NaN"

fun is_finite :: "pyfloat \<Rightarrow> bool" where
  "is_finite (Fin r) = True"
| "is_finite f = False"

fun fin_val :: "pyfloat \<Rightarrow> real" where
  "fin_val (Fin r) = r"
| "fin_val f = 0"

text \<open>\<^verbatim>\<open>int(x)\<close> on a finite float truncates towards zero.\<close>

definition py_int :: "real \<Rightarrow> int" where
  "py_int r = (if 0 \<le> r then \<lfloor>r\<rfloor> else \<lceil>r\<rceil>)"

subsection \<open>Rounding to a double\<close>

text \<open>
  A Python float is an IEEE 754 double: a finite one is \<open>n * 2 ^ e\<close> with an integer
  \<open>\<bar>n\<bar> < 2 ^ 53\<close> and \<open>- 1074 \<le> e \<le> 971\<close>. Every operation gives the double nearest to
  the exact result, the one with the even \<open>n\<close> when two are as near, and an infinity when
  that is \<open>2 ^ 1024\<close> or more. \<open>to_normal_form\<close> brings a positive number to the form
  \<open>m * 2 ^ e\<close> with \<open>2 ^ 52 \<le> m < 2 ^ 53\<close>, or with \<open>m < 2 ^ 52\<close> and \<open>e = - 1074\<close>;
  \<open>round_double\<close> then rounds \<open>m\<close> to an integer. Zero has no sign here.
\<close>

definition round_even :: "real \<Rightarrow> int" where
  "round_even x =
     (let n = \<lfloor>x\<rfloor>; d = x - of_int n
      in if d < 1 / 2 then n else if 1 / 2 < d then n + 1 else if even n then n else n + 1)"

function scale_down :: "real \<Rightarrow> int \<Rightarrow> real \<times> int" where
  "scale_down m e = (if 2 ^ 53 \<le> m then scale_down (m / 2) (e + 1) else (m, e))"
  by pat_completeness auto
termination
proof (relation "measure (\<lambda>(m, e). nat \<lfloor>m\<rfloor>)")
  show "wf (measure (\<lambda>(m, e). nat \<lfloor>m\<rfloor>))" by simp
next
  fix m :: real and e :: int
  assume m: "2 ^ 53 \<le> m"
  have "real_of_int \<lfloor>m / 2\<rfloor> \<le> m / 2" by (rule of_int_floor_le)
  moreover have "m - 1 < \<lfloor>m\<rfloor>" by linarith
  moreover have "(4::real) \<le> 2 ^ 53" by simp
  then have m4: "4 \<le> m" using m by linarith
  ultimately have "real_of_int \<lfloor>m / 2\<rfloor> < real_of_int \<lfloor>m\<rfloor>" by linarith
  then have "\<lfloor>m / 2\<rfloor> < \<lfloor>m\<rfloor>" by simp
  moreover have "0 < \<lfloor>m\<rfloor>" using m4 by linarith
  ultimately show "((m / 2, e + 1), (m, e)) \<in> measure (\<lambda>(m, e). nat \<lfloor>m\<rfloor>)" by simp
qed

function scale_up :: "real \<Rightarrow> int \<Rightarrow> real \<times> int" where
  "scale_up m e = (if m < 2 ^ 52 \<and> - 1074 < e then scale_up (m * 2) (e - 1) else (m, e))"
  by pat_completeness auto
termination
  by (relation "measure (\<lambda>(m, e). nat (e + 1074))") auto

declare scale_down.simps [simp del] scale_up.simps [simp del]

definition to_normal_form :: "real \<Rightarrow> real \<times> int" where
  "to_normal_form a = (if 2 ^ 53 \<le> a then scale_down a 0 else scale_up a 0)"

definition round_double :: "real \<Rightarrow> pyfloat" where
  "round_double x =
     (if x = 0 then Fin 0
      else
        (let (m, e) = to_normal_form \<bar>x\<bar>;
             r = real_of_int (round_even m) * 2 powi e
         in if 2 ^ 1024 \<le> r then (if x < 0 then NInf else PInf)
            else Fin (if x < 0 then - r else r)))"

subsection \<open>Characters and \<^verbatim>\<open>str.strip()\<close>\<close>

definition is_digit :: "char \<Rightarrow> bool" where
  "is_digit c = (c \<in> set ''0123456789'')"

definition digit_val :: "char \<Rightarrow> nat" where
  "digit_val c = of_char c - 48"

definition is_alpha :: "char \<Rightarrow> bool" where
  "is_alpha c =
     (c \<in> set ''ABCDEFGHIJKLMNOPQRSTUVWXYZabcdefghijklmnopqrstuvwxyz'')"

text \<open>
  The white space of \<^verbatim>\<open>str.strip()\<close> below code point 256: tab to carriage return,
  the four separators 28 to 31, the space, NEL (133) and the no-break space (160).
\<close>

definition is_space :: "char \<Rightarrow> bool" where
  "is_space c =
     (let n = (of_char c :: nat)
      in (9 \<le> n \<and> n \<le> 13) \<or> (28 \<le> n \<and> n \<le> 32) \<or> n = 133 \<or> n = 160)"

definition strip :: "string \<Rightarrow> string" where
  "strip s = rev (dropWhile is_space (rev (dropWhile is_space s)))"

definition lower :: "char \<Rightarrow> char" where
  "lower c =
     (case map_of (zip ''ABCDEFGHIJKLMNOPQRSTUVWXYZ'' ''abcdefghijklmnopqrstuvwxyz'') c of
        None \<Rightarrow> c
      | Some l \<Rightarrow> l)"

subsection \<open>\<^verbatim>\<open>float(s)\<close> and \<^verbatim>\<open>str(n)\<close>\<close>

text \<open>
  \<^verbatim>\<open>float\<close> of a string: white space stripped, an optional sign, then
  \<^verbatim>\<open>inf\<close>, \<^verbatim>\<open>infinity\<close> or \<^verbatim>\<open>nan\<close> in any case, or a decimal number: digits with at most
  one dot, then an optional exponent. Single underscores may stand between digits.
  The number is rounded to a double, so a large one gives an infinity and a small one
  zero. \<open>None\<close> is \<^verbatim>\<open>ValueError\<close>.
\<close>

fun scan_digits :: "nat \<Rightarrow> nat \<Rightarrow> string \<Rightarrow> nat \<times> nat \<times> string" where
  "scan_digits v n [] = (v, n, [])"
| "scan_digits v n (c # cs) =
     (if is_digit c then scan_digits (10 * v + digit_val c) (Suc n) cs
      else if c = CHR ''_'' \<and> 0 < n \<and> (case cs of [] \<Rightarrow> False | d # _ \<Rightarrow> is_digit d)
      then scan_digits v n cs
      else (v, n, c # cs))"

definition scan_exponent :: "string \<Rightarrow> int option" where
  "scan_exponent s =
     (case s of
        [] \<Rightarrow> Some 0
      | c # r \<Rightarrow>
          if c \<noteq> CHR ''e'' \<and> c \<noteq> CHR ''E'' then None
          else
            (let (neg, r1) =
                   (case r of
                      [] \<Rightarrow> (False, r)
                    | s1 # r' \<Rightarrow>
                        if s1 = CHR ''-'' then (True, r')
                        else if s1 = CHR ''+'' then (False, r') else (False, r))
             in case scan_digits 0 0 r1 of
                  (e, ne, rest) \<Rightarrow>
                    if ne = 0 \<or> rest \<noteq> [] then None
                    else Some (if neg then - int e else int e)))"

definition scan_decimal :: "string \<Rightarrow> real option" where
  "scan_decimal s =
     (case scan_digits 0 0 s of
        (ip, ni, r1) \<Rightarrow>
          (let (fp, nf, r2) =
                 (case r1 of
                    [] \<Rightarrow> (0, 0, r1)
                  | c # r \<Rightarrow> if c = CHR ''.'' then scan_digits 0 0 r else (0, 0, r1))
           in if ni + nf = 0 then None
              else
                (case scan_exponent r2 of
                   None \<Rightarrow> None
                 | Some e \<Rightarrow>
                     (let m = real ip + real fp / 10 ^ nf
                      in Some (if 0 \<le> e then m * 10 ^ nat e else m / 10 ^ nat (- e))))))"

definition py_float :: "string \<Rightarrow> pyfloat option" where
  "py_float s =
     (let t = strip s;
          (neg, u) =
            (case t of
               [] \<Rightarrow> (False, t)
             | c # r \<Rightarrow>
                 if c = CHR ''-'' then (True, r)
                 else if c = CHR ''+'' then (False, r) else (False, t));
          w = map lower u
      in if w = ''inf'' \<or> w = ''infinity'' then Some (if neg then NInf else PInf)
         else if w = ''nan'' then Some NaN
         else map_option (\<lambda>r. round_double (if neg then - r else r)) (scan_decimal u))"

text \<open>\<^verbatim>\<open>try_float\<close>, lines 38 to 42: any exception of \<^verbatim>\<open>float\<close> gives \<^verbatim>\<open>0.0\<close>.\<close>

definition try_float :: "string \<Rightarrow> pyfloat" where
  "try_float x = (case py_float x of Some f \<Rightarrow> f | None \<Rightarrow> Fin 0)"

text \<open>\<^verbatim>\<open>str(n)\<close> of an integer, as an f-string formats a timestamp.\<close>

definition digit_char :: "nat \<Rightarrow> char" where
  "digit_char n = ''0123456789'' ! n"

fun str_nat :: "nat \<Rightarrow> string" where
  "str_nat n =
     (if n < 10 then [digit_char n] else str_nat (n div 10) @ [digit_char (n mod 10)])"

declare str_nat.simps [simp del]

definition str_int :: "int \<Rightarrow> string" where
  "str_int i = (if i < 0 then CHR ''-'' # str_nat (nat (- i)) else str_nat (nat i))"

section \<open>Parsing a response\<close>

text \<open>
  \<^verbatim>\<open>parse_response\<close>, lines 44 to 51. The regular expression
  \<^verbatim>\<open>\$(\d+):([0-9A-Za-z\.\-]+)\<close> is matched by hand: a dollar sign, the longest run of
  digits (at least one), a colon, the longest run of value characters (at least one).
  No digit is a colon and nothing follows the second group, so a shorter run never
  matches where the longest does not. \<^verbatim>\<open>findall\<close> tries each position from the left
  and goes on after the end of a match.
\<close>

definition is_valchar :: "char \<Rightarrow> bool" where
  "is_valchar c = (is_digit c \<or> is_alpha c \<or> c = CHR ''.'' \<or> c = CHR ''-'')"

definition match_token :: "string \<Rightarrow> (string \<times> string \<times> string) option" where
  "match_token s =
     (case s of
        [] \<Rightarrow> None
      | c # r \<Rightarrow>
          if c \<noteq> CHR ''$'' then None
          else
            (let k = takeWhile is_digit r; r1 = dropWhile is_digit r
             in if k = [] then None
                else
                  (case r1 of
                     [] \<Rightarrow> None
                   | c1 # r2 \<Rightarrow>
                       if c1 \<noteq> CHR '':'' then None
                       else
                         (let v = takeWhile is_valchar r2; r3 = dropWhile is_valchar r2
                          in if v = [] then None else Some (k, v, r3)))))"

lemma match_token_shorter:
  "match_token s = Some (k, v, r) \<Longrightarrow> length r < length s"
proof -
  have drop_le: "length (dropWhile P l) \<le> length l" for P and l :: string
    by (induction l) auto
  assume "match_token s = Some (k, v, r)"
  then obtain c r0 c1 r2 where
    s: "s = c # r0" and r1: "dropWhile is_digit r0 = c1 # r2" and r: "r = dropWhile is_valchar r2"
    by (auto simp: match_token_def Let_def split: list.splits if_splits)
  have "length r \<le> length r2" using r drop_le by simp
  moreover have "length (c1 # r2) \<le> length r0" using r1 drop_le [of is_digit r0] by simp
  ultimately show ?thesis using s by simp
qed

function findall_tokens :: "string \<Rightarrow> (string \<times> string) list" where
  "findall_tokens [] = []"
| "findall_tokens (c # cs) =
     (case match_token (c # cs) of
        None \<Rightarrow> findall_tokens cs
      | Some (k, v, r) \<Rightarrow> (k, v) # findall_tokens r)"
  by pat_completeness auto
termination
  by (relation "measure length") (auto dest: match_token_shorter)

text \<open>\<^verbatim>\<open>s[:s.rfind(',')]\<close> when \<^verbatim>\<open>s\<close> has a comma: what stands before the last one.\<close>

definition cut_checksum :: "string \<Rightarrow> string" where
  "cut_checksum s =
     (if CHR '','' \<in> set s
      then rev (tl (dropWhile (\<lambda>c. c \<noteq> CHR '','') (rev s)))
      else s)"

definition parse_response :: "string \<Rightarrow> (string \<times> string) list" where
  "parse_response resp =
     (if resp = [] then [] else findall_tokens (cut_checksum (strip resp)))"

text \<open>
  \<^verbatim>\<open>dict(pairs)\<close>: of two pairs with one key the later one wins. The dictionary is
  only read with \<^verbatim>\<open>get\<close>, so it is a map.
\<close>

definition parse_response_dict :: "string \<Rightarrow> (string \<rightharpoonup> string)" where
  "parse_response_dict resp = map_of (rev (parse_response resp))"

section \<open>Channels and the poller\<close>

text \<open>
  A channel is the dictionary \<^verbatim>\<open>{'addr', 'xs', 'ys', 'vals'}\<close> of lines 206 to 211 and
  273 to 278. The registry \<^verbatim>\<open>self.channels\<close> is an \<^verbatim>\<open>OrderedDict\<close>: a list of pairs
  in insertion order, where assigning to a key that exists keeps its place.
\<close>

record channel =
  addr :: string
  xs :: "int deque"
  ys :: "pyfloat deque"
  vals :: "pyfloat deque"

definition new_channel :: "nat \<Rightarrow> string \<Rightarrow> channel" where
  "new_channel cap a =
     \<lparr>addr = a, xs = new_deque cap, ys = new_deque cap, vals = new_deque cap\<rparr>"

fun od_set :: "'k \<Rightarrow> 'v \<Rightarrow> ('k \<times> 'v) list \<Rightarrow> ('k \<times> 'v) list" where
  "od_set k v [] = [(k, v)]"
| "od_set k v (p # ps) = (if fst p = k then (k, v) # ps else p # od_set k v ps)"

text \<open>
  One sample, lines 381 to 383 and 400 to 402: the timestamp, the magnitude and the
  raw value go to the three deques of the channel.
\<close>

definition append_sample :: "channel \<Rightarrow> int \<Rightarrow> string \<Rightarrow> channel" where
  "append_sample ch ts val =
     ch\<lparr>xs := deque_append (xs ch) ts,
        ys := deque_append (ys ch) (fabs (try_float val)),
        vals := deque_append (vals ch) (try_float val)\<rparr>"

definition clear_channel :: "channel \<Rightarrow> channel" where
  "clear_channel ch =
     ch\<lparr>xs := deque_clear (xs ch), ys := deque_clear (ys ch), vals := deque_clear (vals ch)\<rparr>"

text \<open>
  The state of a \<^verbatim>\<open>PollSerial\<close> object. \<open>channels_lock\<close> tells whether the lock is held;
  \<open>poll_thread\<close> is \<open>None\<close> before the first thread, then \<open>Some alive\<close>; \<open>log_file\<close> holds
  the rows written so far, \<open>None\<close> when there is no log file.
\<close>

record poller =
  request_str :: "string option"
  cell_list :: "(string \<times> string) list"
  channels :: "(string \<times> channel) list"
  colors :: "(string \<times> string) list"
  next_color :: nat
  channels_lock :: bool
  start_time :: "real option"
  pause_accum :: real
  pause_start :: "real option"
  paused :: bool
  stop_event :: bool
  poll_thread :: "bool option"
  log_file :: "string list option"

definition color_cycle :: "string list" where
  "color_cycle =
     [''#e6194b'', ''#3cb44b'', ''#ffe119'', ''#4363d8'', ''#f58231'',
      ''#911eb4'', ''#46f0f0'', ''#f032e6'', ''#bcf60c'', ''#fabebe'',
      ''#008080'', ''#e6beff'', ''#9a6324'', ''#fffac8'', ''#800000'']"

text \<open>A string option is true in a condition when it is neither \<^verbatim>\<open>None\<close> nor empty.\<close>

definition truthy :: "string option \<Rightarrow> bool" where
  "truthy s = (s \<noteq> None \<and> s \<noteq> Some [])"

subsection \<open>The constructor\<close>

record args =
  arg_request_str :: "string option"
  arg_cells :: "string list"
  arg_file :: "bool option"

text \<open>
  Lines 190 to 200. A token \<^verbatim>\<open>Name:Addr\<close> is split at its first colon; a token with no
  colon names a channel after its address; an empty one is dropped.
\<close>

fun parse_cells :: "string list \<Rightarrow> (string \<times> string) list" where
  "parse_cells [] = []"
| "parse_cells (token # rest) =
     (if CHR '':'' \<in> set token
      then (strip (takeWhile (\<lambda>c. c \<noteq> CHR '':'') token),
            strip (tl (dropWhile (\<lambda>c. c \<noteq> CHR '':'') token))) # parse_cells rest
      else if strip token \<noteq> [] then (strip token, strip token) # parse_cells rest
      else parse_cells rest)"

text \<open>
  Lines 242 to 259, for a file that can be opened: \<open>arg_file = Some existed\<close>. A new
  file gets the header row.
\<close>

definition log_header :: "string option \<Rightarrow> (string \<times> string) list \<Rightarrow> string" where
  "log_header rs cl =
     (if truthy rs then ''Time_ms, Values'' @ [CHR 0x0A]
      else ''Time_ms'' @ concat (map (\<lambda>(nm, a). '', '' @ nm) cl) @ [CHR 0x0A])"

definition init :: "args \<Rightarrow> poller" where
  "init a =
     (let cl = (if truthy (arg_request_str a) then [] else parse_cells (arg_cells a))
      in \<lparr>request_str = arg_request_str a,
          cell_list = cl,
          channels = fold (\<lambda>(name, ad) chs. od_set name (new_channel MAX_POINTS ad) chs) cl [],
          colors = [],
          next_color = 0,
          channels_lock = False,
          start_time = None,
          pause_accum = 0,
          pause_start = None,
          paused = False,
          stop_event = False,
          poll_thread = None,
          log_file =
            (case arg_file a of
               None \<Rightarrow> None
             | Some existed \<Rightarrow>
                 Some (if existed then [] else [log_header (arg_request_str a) cl]))\<rparr>)"

text \<open>\<^verbatim>\<open>assign_color\<close>, lines 261 to 267.\<close>

definition assign_color :: "string \<Rightarrow> poller \<Rightarrow> string \<times> poller" where
  "assign_color name st =
     (case map_of (colors st) name of
        Some c \<Rightarrow> (c, st)
      | None \<Rightarrow>
          (let c = color_cycle ! (next_color st mod length color_cycle)
           in (c, st\<lparr>colors := od_set name c (colors st),
                       next_color := next_color st + 1\<rparr>)))"

subsection \<open>Outcomes and the registry lock\<close>

text \<open>
  A method that takes the lock can end in three ways: it returns, it raises, or it
  waits for the lock and never goes on. \<^verbatim>\<open>channels_lock\<close> is a \<^verbatim>\<open>threading.Lock\<close>,
  which is not reentrant: a thread that asks for it again while holding it waits for
  itself. Each method runs as one step, so at the start of a step the lock is held
  only when an earlier step blocked while holding it, and waiting for it never ends.
  Every outcome carries the state of the object at that moment.
\<close>

datatype error =
  KeyError string | IndexError | TypeError | ValueError | OverflowError | ZeroDivisionError

datatype 'a outcome = Returns 'a | Raises error 'a | Blocks 'a

fun state_of :: "'a outcome \<Rightarrow> 'a" where
  "state_of (Returns s) = s"
| "state_of (Raises e s) = s"
| "state_of (Blocks s) = s"

text \<open>\<^verbatim>\<open>with self.channels_lock: body\<close>; the lock is released when the body raises.\<close>

definition with_lock :: "(poller \<Rightarrow> poller outcome) \<Rightarrow> poller \<Rightarrow> poller outcome" where
  "with_lock body st =
     (if channels_lock st then Blocks st
      else
        (case body (st\<lparr>channels_lock := True\<rparr>) of
           Returns st' \<Rightarrow> Returns (st'\<lparr>channels_lock := False\<rparr>)
         | Raises e st' \<Rightarrow> Raises e (st'\<lparr>channels_lock := False\<rparr>)
         | Blocks st' \<Rightarrow> Blocks st'))"

text \<open>\<^verbatim>\<open>add_channel_if_missing\<close>, lines 269 to 278.\<close>

definition add_channel_if_missing :: "string \<Rightarrow> string \<Rightarrow> poller \<Rightarrow> poller outcome" where
  "add_channel_if_missing name a =
     with_lock (\<lambda>st.
       Returns (if name \<in> fst ` set (channels st) then st
                else st\<lparr>channels := od_set name (new_channel MAX_POINTS a) (channels st)\<rparr>))"

subsection \<open>The transport and the log\<close>

text \<open>
  What the serial port does during one cycle: whether \<^verbatim>\<open>write\<close> or \<^verbatim>\<open>flush\<close> raises,
  and what reading gives (\<open>None\<close> when \<^verbatim>\<open>in_waiting\<close> or \<^verbatim>\<open>read\<close> raises). \<open>incoming\<close>
  is the text that \<^verbatim>\<open>raw.decode(errors='ignore')\<close> makes of the bytes read; the decoding
  itself is not modelled, and the text has code points below 256.
\<close>

record transport =
  write_fails :: bool
  incoming :: "string option"

text \<open>\<^verbatim>\<open>send_request\<close>, lines 304 to 309: an exception is passed over.\<close>

definition send_request :: "transport \<Rightarrow> string \<Rightarrow> poller \<Rightarrow> poller" where
  "send_request tr s st = (if write_fails tr then st else st)"

text \<open>\<^verbatim>\<open>read_all_response\<close>, lines 311 to 320.\<close>

definition read_all_response :: "transport \<Rightarrow> string" where
  "read_all_response tr =
     (case incoming tr of
        None \<Rightarrow> []
      | Some raw \<Rightarrow> if raw \<noteq> [] then raw else [])"

definition cell_value :: "(string \<rightharpoonup> string) \<Rightarrow> string \<Rightarrow> string" where
  "cell_value d a = (case d a of None \<Rightarrow> ''0'' | Some v \<Rightarrow> v)"

text \<open>\<^verbatim>\<open>log_cycle_cellmode\<close>, lines 322 to 334.\<close>

definition cell_row :: "int \<Rightarrow> (string \<rightharpoonup> string) \<Rightarrow> (string \<times> string) list \<Rightarrow> string" where
  "cell_row ts d cl =
     str_int ts @ concat (map (\<lambda>(name, a). '', '' @ cell_value d a) cl) @ [CHR 0x0A]"

definition log_cycle_cellmode :: "int \<Rightarrow> (string \<rightharpoonup> string) \<Rightarrow> poller \<Rightarrow> poller" where
  "log_cycle_cellmode ts d st =
     (case log_file st of
        None \<Rightarrow> st
      | Some rows \<Rightarrow> st\<lparr>log_file := Some (rows @ [cell_row ts d (cell_list st)])\<rparr>)"

text \<open>\<^verbatim>\<open>log_cycle_querymode\<close>, lines 336 to 348; \<open>join\<close> is \<^verbatim>\<open>', '.join(vals)\<close>.\<close>

fun join :: "string \<Rightarrow> string list \<Rightarrow> string" where
  "join sep [] = []"
| "join sep [v] = v"
| "join sep (v # w # rest) = v @ sep @ join sep (w # rest)"

definition query_row :: "int \<Rightarrow> (string \<times> string) list \<Rightarrow> string" where
  "query_row ts parsed =
     (if parsed \<noteq> [] then str_int ts @ '', '' @ join '', '' (map snd parsed) @ [CHR 0x0A]
      else str_int ts @ '', '' @ [CHR 0x0A])"

definition log_cycle_querymode :: "int \<Rightarrow> (string \<times> string) list \<Rightarrow> poller \<Rightarrow> poller" where
  "log_cycle_querymode ts parsed st =
     (case log_file st of
        None \<Rightarrow> st
      | Some rows \<Rightarrow> st\<lparr>log_file := Some (rows @ [query_row ts parsed])\<rparr>)"

subsection \<open>One cycle of the poll loop\<close>

text \<open>
  Cell-list mode, lines 391 to 404. \<open>append_cells\<close> is the loop under the lock;
  \<^verbatim>\<open>self.channels[name]\<close> raises \<^verbatim>\<open>KeyError\<close> for a name that is not registered.
\<close>

fun append_cells ::
  "int \<Rightarrow> (string \<rightharpoonup> string) \<Rightarrow> (string \<times> string) list \<Rightarrow> poller \<Rightarrow> poller outcome" where
  "append_cells ts d [] st = Returns st"
| "append_cells ts d ((name, a) # rest) st =
     (case map_of (channels st) name of
        None \<Rightarrow> Raises (KeyError name) st
      | Some ch \<Rightarrow>
          append_cells ts d rest
            (st\<lparr>channels := od_set name (append_sample ch ts (cell_value d a)) (channels st)\<rparr>))"

definition poll_cycle_cell :: "int \<Rightarrow> transport \<Rightarrow> poller \<Rightarrow> poller outcome" where
  "poll_cycle_cell ts tr st =
     (let st1 = fold (\<lambda>(name, a). send_request tr (CHR ''?'' # a @ [CHR 0x0A])) (cell_list st) st;
          d = parse_response_dict (read_all_response tr)
      in case with_lock (append_cells ts d (cell_list st1)) st1 of
           Returns st2 \<Rightarrow> Returns (log_cycle_cellmode ts d st2)
         | Raises e st2 \<Rightarrow> Raises e st2
         | Blocks st2 \<Rightarrow> Blocks st2)"

text \<open>
  Custom-request mode, lines 366 to 388. \<open>find_display_name\<close> is the inner loop of
  lines 373 to 376; \<open>append_parsed\<close> is the loop under the lock, which calls
  \<^verbatim>\<open>add_channel_if_missing\<close> for an address no channel has.
\<close>

fun find_display_name :: "string \<Rightarrow> (string \<times> channel) list \<Rightarrow> string option" where
  "find_display_name a [] = None"
| "find_display_name a ((nm, ch) # rest) =
     (if addr ch = a then Some nm else find_display_name a rest)"

fun append_parsed :: "int \<Rightarrow> (string \<times> string) list \<Rightarrow> poller \<Rightarrow> poller outcome" where
  "append_parsed ts [] st = Returns st"
| "append_parsed ts ((a, val) # rest) st =
     (case (case find_display_name a (channels st) of
              Some nm \<Rightarrow> Returns (nm, st)
            | None \<Rightarrow>
                (case add_channel_if_missing a a st of
                   Returns st1 \<Rightarrow> Returns (a, st1)
                 | Raises e st1 \<Rightarrow> Raises e (a, st1)
                 | Blocks st1 \<Rightarrow> Blocks (a, st1))) of
        Returns (display_name, st1) \<Rightarrow>
          (case map_of (channels st1) display_name of
             None \<Rightarrow> Raises (KeyError display_name) st1
           | Some ch \<Rightarrow>
               append_parsed ts rest
                 (st1\<lparr>channels := od_set display_name (append_sample ch ts val) (channels st1)\<rparr>))
      | Raises e (display_name, st1) \<Rightarrow> Raises e st1
      | Blocks (display_name, st1) \<Rightarrow> Blocks st1)"

definition poll_cycle_query :: "int \<Rightarrow> transport \<Rightarrow> poller \<Rightarrow> poller outcome" where
  "poll_cycle_query ts tr st =
     (let st1 = send_request tr ((case request_str st of None \<Rightarrow> [] | Some r \<Rightarrow> r) @ [CHR 0x0A]) st;
          parsed = parse_response (read_all_response tr)
      in case (if parsed \<noteq> [] then with_lock (append_parsed ts parsed) st1 else Returns st1) of
           Returns st2 \<Rightarrow> Returns (log_cycle_querymode ts parsed st2)
         | Raises e st2 \<Rightarrow> Raises e st2
         | Blocks st2 \<Rightarrow> Blocks st2)"

text \<open>
  One pass through the body of \<^verbatim>\<open>while not self.stop_event.is_set()\<close>, lines 356 to
  404, at time \<open>now\<close>. A set stop event ends the thread, and so does an exception.
  The readings of the clock are taken as exact numbers, and so is the arithmetic of
  line 363 on them.
\<close>

definition timestamp_ms :: "real \<Rightarrow> real \<Rightarrow> real \<Rightarrow> int" where
  "timestamp_ms now t0 acc = py_int ((now - t0 - acc) * 1000)"

definition poll_iteration :: "real \<Rightarrow> transport \<Rightarrow> poller \<Rightarrow> poller outcome" where
  "poll_iteration now tr st =
     (if stop_event st then Returns (st\<lparr>poll_thread := Some False\<rparr>)
      else if paused st then Returns st
      else
        (case start_time st of
           None \<Rightarrow> Raises TypeError (st\<lparr>poll_thread := Some False\<rparr>)
         | Some t0 \<Rightarrow>
             (case (if truthy (request_str st)
                    then poll_cycle_query (timestamp_ms now t0 (pause_accum st)) tr st
                    else poll_cycle_cell (timestamp_ms now t0 (pause_accum st)) tr st) of
                Returns st1 \<Rightarrow> Returns st1
              | Raises e st1 \<Rightarrow> Raises e (st1\<lparr>poll_thread := Some False\<rparr>)
              | Blocks st1 \<Rightarrow> Blocks st1)))"

subsection \<open>Start, pause, resume, restart\<close>

text \<open>
  \<^verbatim>\<open>start_polling_thread\<close>, lines 415 to 423 (with the first lines of \<^verbatim>\<open>poll_loop\<close>,
  which find the clock started).
\<close>

definition alive :: "poller \<Rightarrow> bool" where
  "alive st = (poll_thread st = Some True)"

definition start_polling_thread :: "real \<Rightarrow> poller \<Rightarrow> poller" where
  "start_polling_thread now st =
     (if alive st then st
      else
        (let st1 = (if start_time st = None
                    then st\<lparr>start_time := Some now, pause_accum := 0\<rparr> else st)
         in st1\<lparr>stop_event := False, poll_thread := Some True\<rparr>))"

text \<open>\<^verbatim>\<open>pause_polling\<close>, lines 425 to 429.\<close>

definition pause_polling :: "real \<Rightarrow> poller \<Rightarrow> poller" where
  "pause_polling now st =
     (if paused st then st else st\<lparr>paused := True, pause_start := Some now\<rparr>)"

text \<open>
  \<^verbatim>\<open>resume_polling\<close>, lines 431 to 440. In \<^verbatim>\<open>self.pause_start or time.perf_counter()\<close>
  a start of \<^verbatim>\<open>None\<close> or \<^verbatim>\<open>0.0\<close> gives the current time.
\<close>

definition resume_polling :: "real \<Rightarrow> poller \<Rightarrow> poller" where
  "resume_polling now st =
     (if \<not> paused st then (if \<not> alive st then start_polling_thread now st else st)
      else
        (let since = (case pause_start st of
                        None \<Rightarrow> now
                      | Some p \<Rightarrow> if p = 0 then now else p)
         in st\<lparr>pause_accum := pause_accum st + (now - since),
                pause_start := None,
                paused := False\<rparr>))"

text \<open>
  \<^verbatim>\<open>restart_polling\<close>, lines 442 to 462. A living thread is told to stop and joined:
  it sees the stop event at its next check and ends, unless it is blocked, in which
  case the lock it holds blocks the restart too.
\<close>

definition restart_polling :: "real \<Rightarrow> poller \<Rightarrow> poller outcome" where
  "restart_polling now st =
     (let st1 = (if alive st \<and> \<not> channels_lock st
                 then st\<lparr>stop_event := True, poll_thread := Some False\<rparr>
                 else if alive st then st\<lparr>stop_event := True\<rparr> else st);
          st2 = st1\<lparr>stop_event := False\<rparr>
      in case with_lock (\<lambda>s. Returns (s\<lparr>channels := map (\<lambda>(name, ch). (name, clear_channel ch)) (channels s)\<rparr>)) st2 of
           Returns st3 \<Rightarrow>
             Returns (st3\<lparr>start_time := Some now, pause_accum := 0, pause_start := None,
                          paused := False, poll_thread := Some True\<rparr>)
         | Raises e st3 \<Rightarrow> Raises e st3
         | Blocks st3 \<Rightarrow> Blocks st3)"

section \<open>Float arithmetic of the renderer\<close>

text \<open>
  The renderer computes with the stored floats, which may be infinite or not a number
  (a device can send \<^verbatim>\<open>$10:nan\<close>). The operations follow Python: the result of an
  operation on finite floats is rounded to a double, and is an infinity when it is too
  large; an infinity minus itself and an infinity times zero are not a number, dividing
  by zero raises \<^verbatim>\<open>ZeroDivisionError\<close>, every comparison with \<^verbatim>\<open>nan\<close> is false, and
  \<^verbatim>\<open>int\<close> raises on the special values. An integer operand of a float operation is
  converted first, which raises \<^verbatim>\<open>OverflowError\<close> when it is too large for a double, and
  so does the division of two integers when the quotient is.
\<close>

fun fadd :: "pyfloat \<Rightarrow> pyfloat \<Rightarrow> pyfloat" where
  "fadd (Fin a) (Fin b) = round_double (a + b)"
| "fadd NaN b = NaN"
| "fadd a NaN = NaN"
| "fadd PInf NInf = NaN"
| "fadd NInf PInf = NaN"
| "fadd PInf b = PInf"
| "fadd NInf b = NInf"
| "fadd (Fin a) b = b"

definition fsub :: "pyfloat \<Rightarrow> pyfloat \<Rightarrow> pyfloat" where
  "fsub a b = fadd a (fneg b)"

fun fsign :: "pyfloat \<Rightarrow> int" where
  "fsign (Fin r) = (if r < 0 then - 1 else if r = 0 then 0 else 1)"
| "fsign PInf = 1"
| "fsign NInf = - 1"
| "fsign NaN = 0"

fun fmul :: "pyfloat \<Rightarrow> pyfloat \<Rightarrow> pyfloat" where
  "fmul (Fin a) (Fin b) = round_double (a * b)"
| "fmul NaN b = NaN"
| "fmul a NaN = NaN"
| "fmul a b =
     (if fsign a * fsign b = 0 then NaN else if 0 < fsign a * fsign b then PInf else NInf)"

fun fdiv :: "pyfloat \<Rightarrow> pyfloat \<Rightarrow> error + pyfloat" where
  "fdiv a (Fin b) =
     (if b = 0 then Inl ZeroDivisionError
      else
        (case a of
           Fin r \<Rightarrow> Inr (round_double (r / b))
         | NaN \<Rightarrow> Inr NaN
         | PInf \<Rightarrow> Inr (if 0 < b then PInf else NInf)
         | NInf \<Rightarrow> Inr (if 0 < b then NInf else PInf)))"
| "fdiv a NaN = Inr NaN"
| "fdiv (Fin r) b = Inr (Fin 0)"
| "fdiv a b = Inr NaN"

text \<open>
  An integer as a float operand, and \<^verbatim>\<open>a / b\<close> on two integers: rounded, and
  \<^verbatim>\<open>OverflowError\<close> where a float operation would give an infinity.
\<close>

fun finite_or_overflow :: "pyfloat \<Rightarrow> error + pyfloat" where
  "finite_or_overflow (Fin r) = Inr (Fin r)"
| "finite_or_overflow f = Inl OverflowError"

definition float_of_int :: "int \<Rightarrow> error + pyfloat" where
  "float_of_int n = finite_or_overflow (round_double (real_of_int n))"

definition int_truediv :: "int \<Rightarrow> int \<Rightarrow> error + pyfloat" where
  "int_truediv a b =
     (if b = 0 then Inl ZeroDivisionError
      else finite_or_overflow (round_double (real_of_int a / real_of_int b)))"

fun fgt :: "pyfloat \<Rightarrow> pyfloat \<Rightarrow> bool" where
  "fgt (Fin a) (Fin b) = (b < a)"
| "fgt NaN b = False"
| "fgt a NaN = False"
| "fgt PInf b = (b \<noteq> PInf)"
| "fgt a NInf = (a \<noteq> NInf)"
| "fgt a b = False"

text \<open>\<^verbatim>\<open>max(a, b)\<close> keeps \<^verbatim>\<open>a\<close> unless \<^verbatim>\<open>b > a\<close>; \<^verbatim>\<open>max(list)\<close> goes from the left.\<close>

definition fmax2 :: "pyfloat \<Rightarrow> pyfloat \<Rightarrow> pyfloat" where
  "fmax2 a b = (if fgt b a then b else a)"

fun fmax_list :: "pyfloat list \<Rightarrow> error + pyfloat" where
  "fmax_list [] = Inl ValueError"
| "fmax_list (v # l) = Inr (fold (\<lambda>w r. fmax2 r w) l v)"

fun to_int :: "pyfloat \<Rightarrow> error + int" where
  "to_int (Fin r) = Inr (py_int r)"
| "to_int NaN = Inl ValueError"
| "to_int f = Inl OverflowError"

definition and_then :: "error + 'a \<Rightarrow> ('a \<Rightarrow> error + 'b) \<Rightarrow> error + 'b" where
  "and_then m f = (case m of Inl e \<Rightarrow> Inl e | Inr v \<Rightarrow> f v)"

section \<open>The canvas\<close>

text \<open>
  What the renderer hands to Tk: rectangles, lines and texts with pixel coordinates.
  A text keeps the arguments of its f-string; how Python writes a float in digits is
  not modelled:
  \<^item> \<open>Plain s\<close> is the string \<open>s\<close>;
  \<^item> \<open>Fixed n v suffix\<close> is \<^verbatim>\<open>f"{v:.nf}"\<close> followed by \<open>suffix\<close> (grid and axis labels);
  \<^item> \<open>Legend name v\<close> is \<^verbatim>\<open>f"{name}: {v}"\<close>;
  \<^item> \<open>TimeLine v\<close> is \<^verbatim>\<open>f"Time: {v:.1f} s"\<close> and \<open>ValueLine name v\<close> is
    \<^verbatim>\<open>f"{name}: {v:.3g}"\<close> (the lines of the tooltip).

  The font metrics are those of Tk: widths and line heights are natural numbers.
\<close>

datatype pyval = IntVal int | FloatVal pyfloat

datatype label =
  Plain string
| Fixed nat pyfloat string
| Legend string pyval
| TimeLine pyfloat
| ValueLine string pyfloat

datatype font = GridFont | LegendFont | TipFont

datatype draw =
  Rectangle int int int int
| Line int int int int string
| CanvasText int int string label string font

record fonts =
  grid_linespace :: nat
  legend_measure :: "label \<Rightarrow> nat"
  tip_linespace :: nat
  tip_measure :: "label \<Rightarrow> nat"

subsection \<open>Coordinates\<close>

text \<open>
  Line 536: \<^verbatim>\<open>int(left + (xv - x_min) / (x_max - x_min) * (right - left))\<close>, on
  integers: the quotient of two integers is a float, and the integers \<^verbatim>\<open>right - left\<close>
  and \<^verbatim>\<open>left\<close> are converted when they meet it.
\<close>

definition x_pixel :: "int \<Rightarrow> int \<Rightarrow> int \<Rightarrow> int \<Rightarrow> int \<Rightarrow> error + int" where
  "x_pixel left right x_min x_max xv =
     and_then (int_truediv (xv - x_min) (x_max - x_min)) (\<lambda>q.
       and_then (float_of_int (right - left)) (\<lambda>d.
         and_then (float_of_int left) (\<lambda>l.
           to_int (fadd l (fmul q d)))))"

text \<open>
  Lines 537 and 551: \<^verbatim>\<open>int(bottom - (v - y_min) / (y_max - y_min) * (bottom - top))\<close>,
  with floats \<^verbatim>\<open>v\<close>, \<^verbatim>\<open>y_min\<close> and \<^verbatim>\<open>y_max\<close>.
\<close>

definition y_pixel :: "int \<Rightarrow> int \<Rightarrow> pyfloat \<Rightarrow> pyfloat \<Rightarrow> pyfloat \<Rightarrow> error + int" where
  "y_pixel ytop ybot y_min y_max v =
     and_then (fdiv (fsub v y_min) (fsub y_max y_min)) (\<lambda>q.
       and_then (float_of_int (ybot - ytop)) (\<lambda>d.
         and_then (float_of_int ybot) (\<lambda>b.
           to_int (fsub b (fmul q d)))))"

text \<open>Lines 526 to 530: the Y domain of a channel is \<open>[0, y_max]\<close>.\<close>

definition channel_y_max :: "channel \<Rightarrow> error + pyfloat" where
  "channel_y_max ch =
     and_then (fmax_list (if items (ys ch) \<noteq> [] then map fabs (items (ys ch)) else [Fin 0]))
       (\<lambda>m. Inr (if m = Fin 0 then Fin 1 else m))"

text \<open>Lines 533 to 538: the points of the polyline, or the first exception.\<close>

fun points ::
  "int \<Rightarrow> int \<Rightarrow> int \<Rightarrow> int \<Rightarrow> int \<Rightarrow> int \<Rightarrow> pyfloat \<Rightarrow> (int \<times> pyfloat) list
     \<Rightarrow> error + (int \<times> int) list" where
  "points left ytop right ybot x_min x_max y_max [] = Inr []"
| "points left ytop right ybot x_min x_max y_max ((xv, real_v) # rest) =
     and_then (x_pixel left right x_min x_max xv) (\<lambda>x.
       and_then (y_pixel ytop ybot (Fin 0) y_max (fabs real_v)) (\<lambda>y.
         and_then (points left ytop right ybot x_min x_max y_max rest) (\<lambda>pts.
           Inr ((x, y) # pts))))"

text \<open>Lines 541 to 543: one segment between each two neighbours.\<close>

fun polyline :: "string \<Rightarrow> (int \<times> int) list \<Rightarrow> draw list" where
  "polyline color ((x0, y0) # (x1, y1) # rest) =
     Line x0 y0 x1 y1 color # polyline color ((x1, y1) # rest)"
| "polyline color pts = []"

subsection \<open>Grid lines and their labels\<close>

text \<open>
  Lines 548 to 550: the value of grid line \<open>i_line\<close>; the topmost one is moved down by
  half a step.
\<close>

definition grid_value :: "pyfloat \<Rightarrow> pyfloat \<Rightarrow> pyfloat \<Rightarrow> nat \<Rightarrow> error + pyfloat" where
  "grid_value y_min y_max step i_line =
     and_then (float_of_int (int i_line)) (\<lambda>fi.
       and_then (fdiv (fmul fi (fsub y_max y_min)) (Fin (real GRID_LINES)))
         (\<lambda>q. if i_line = GRID_LINES
               then and_then (fdiv step (Fin 2)) (\<lambda>half.
                      Inr (fmax2 y_min (fsub (fadd y_min q) half)))
               else Inr (fadd y_min q)))"

text \<open>Line 563: two labels overlap when they are less than two pixels apart.\<close>

definition overlaps :: "(int \<times> int) list \<Rightarrow> int \<Rightarrow> int \<Rightarrow> bool" where
  "overlaps placed top_candidate bottom_candidate =
     list_ex (\<lambda>(t, b). \<not> (bottom_candidate < t - 1 \<or> top_candidate > b + 1)) placed"

text \<open>
  Lines 559 to 574: the probing loop. \<open>attempt\<close> counts up to 50; candidate \<open>attempt\<close>
  lies \<open>attempt div 2 + 1\<close> steps above the wanted place when \<open>attempt\<close> is even, below
  when it is odd.
\<close>

function probe :: "(int \<times> int) list \<Rightarrow> int \<Rightarrow> int \<Rightarrow> nat \<Rightarrow> int \<Rightarrow> int \<times> int" where
  "probe placed text_h desired_top attempt top_candidate =
     (if attempt < 50
      then
        (if \<not> overlaps placed top_candidate (top_candidate + text_h)
         then (top_candidate, top_candidate + text_h)
         else
           (let k = int (attempt div 2) + 1
            in probe placed text_h desired_top (attempt + 1)
                 (if attempt mod 2 = 0 then desired_top - k * (text_h + 2)
                  else desired_top + k * (text_h + 2))))
      else (top_candidate, top_candidate + text_h))"
  by pat_completeness auto
termination
  by (relation "measure (\<lambda>(placed, text_h, desired_top, attempt, top_candidate). 50 - attempt)") auto

declare probe.simps [simp del]

text \<open>Lines 575 to 578: the clamp to the plot, first at the top, then at the bottom.\<close>

definition clamp_label :: "int \<Rightarrow> int \<Rightarrow> int \<Rightarrow> int \<times> int \<Rightarrow> int \<times> int" where
  "clamp_label ytop ybot text_h c =
     (let c1 = (if fst c < ytop then (ytop, ytop + text_h) else c)
      in if snd c1 > ybot then (ybot - text_h, ybot) else c1)"

definition place_label :: "int \<Rightarrow> int \<Rightarrow> int \<Rightarrow> (int \<times> int) list \<Rightarrow> int \<Rightarrow> int \<times> int" where
  "place_label ytop ybot text_h placed y_canvas =
     clamp_label ytop ybot text_h
       (probe placed text_h (y_canvas - text_h div 2) 0 (y_canvas - text_h div 2))"

text \<open>
  A frame in progress: what has been drawn, the label rectangles placed so far, the
  legend cursor, and the poller (whose colour table grows while drawing).
\<close>

record frame =
  drawn :: "draw list"
  placed_label_rects :: "(int \<times> int) list"
  legend_x :: int
  obj :: poller

text \<open>Lines 547 to 580: the grid lines of one channel, from the bottom up.\<close>

fun grid_loop ::
  "fonts \<Rightarrow> int \<Rightarrow> int \<Rightarrow> int \<Rightarrow> int \<Rightarrow> pyfloat \<Rightarrow> pyfloat \<Rightarrow> string \<Rightarrow> nat list \<Rightarrow> frame
     \<Rightarrow> frame outcome" where
  "grid_loop fn left ytop right ybot y_max step color [] fr = Returns fr"
| "grid_loop fn left ytop right ybot y_max step color (i_line # rest) fr =
     (case and_then (grid_value (Fin 0) y_max step i_line) (\<lambda>y_val.
             and_then (y_pixel ytop ybot (Fin 0) y_max y_val) (\<lambda>y_canvas.
               Inr (y_val, y_canvas))) of
        Inl e \<Rightarrow> Raises e fr
      | Inr (y_val, y_canvas) \<Rightarrow>
          (let text_h = int (grid_linespace fn) + 2;
               c = place_label ytop ybot text_h (placed_label_rects fr) y_canvas
           in grid_loop fn left ytop right ybot y_max step color rest
                (fr\<lparr>drawn := drawn fr @
                       [Line left y_canvas right y_canvas ''#444444'',
                        CanvasText (left - 6) (fst c + text_h div 2) ''e''
                          (Fixed 2 y_val []) color GridFont],
                     placed_label_rects := placed_label_rects fr @ [c]\<rparr>)))"

text \<open>Lines 523 to 580: one channel. A channel with no timestamps is passed over.\<close>

definition draw_channel ::
  "fonts \<Rightarrow> int \<Rightarrow> int \<Rightarrow> int \<Rightarrow> int \<Rightarrow> int \<Rightarrow> int \<Rightarrow> string \<times> channel \<Rightarrow> frame
     \<Rightarrow> frame outcome" where
  "draw_channel fn left ytop right ybot x_min x_max nc fr =
     (if items (xs (snd nc)) = [] then Returns fr
      else
        (case and_then (channel_y_max (snd nc)) (\<lambda>y_max.
                and_then (points left ytop right ybot x_min x_max y_max
                            (zip (items (xs (snd nc))) (items (vals (snd nc))))) (\<lambda>pts.
                  Inr (y_max, pts))) of
           Inl e \<Rightarrow> Raises e fr
         | Inr (y_max, pts) \<Rightarrow>
             (let (color, st1) = assign_color (fst nc) (obj fr);
                  fr1 = fr\<lparr>drawn := drawn fr @ polyline color pts, obj := st1\<rparr>
              in case fdiv (fsub y_max (Fin 0)) (Fin (real GRID_LINES)) of
                   Inl e \<Rightarrow> Raises e fr1
                 | Inr step \<Rightarrow>
                     grid_loop fn left ytop right ybot y_max step color
                       [0 ..< GRID_LINES + 1] fr1)))"

fun draw_channels ::
  "fonts \<Rightarrow> int \<Rightarrow> int \<Rightarrow> int \<Rightarrow> int \<Rightarrow> int \<Rightarrow> int \<Rightarrow> (string \<times> channel) list \<Rightarrow> frame
     \<Rightarrow> frame outcome" where
  "draw_channels fn left ytop right ybot x_min x_max [] fr = Returns fr"
| "draw_channels fn left ytop right ybot x_min x_max (nc # rest) fr =
     (case draw_channel fn left ytop right ybot x_min x_max nc fr of
        Returns fr1 \<Rightarrow> draw_channels fn left ytop right ybot x_min x_max rest fr1
      | Raises e fr1 \<Rightarrow> Raises e fr1
      | Blocks fr1 \<Rightarrow> Blocks fr1)"

subsection \<open>The legend\<close>

text \<open>Lines 591 to 597: one entry for each registered channel.\<close>

definition legend_entry :: "fonts \<Rightarrow> int \<Rightarrow> string \<times> channel \<Rightarrow> frame \<Rightarrow> frame" where
  "legend_entry fn legend_y nc fr =
     (let (color, st1) = assign_color (fst nc) (obj fr);
          last_val = (if items (vals (snd nc)) \<noteq> []
                      then FloatVal (last (items (vals (snd nc)))) else IntVal 0);
          txt = Legend (fst nc) last_val
      in fr\<lparr>drawn := drawn fr @
                [CanvasText (legend_x fr) legend_y ''nw'' txt color LegendFont],
             legend_x := legend_x fr + int (legend_measure fn txt) + LEGEND_GAP,
             obj := st1\<rparr>)"

definition draw_legend :: "fonts \<Rightarrow> int \<Rightarrow> (string \<times> channel) list \<Rightarrow> frame \<Rightarrow> frame" where
  "draw_legend fn legend_y chs fr = fold (legend_entry fn legend_y) chs fr"

subsection \<open>One rendering pass\<close>

text \<open>
  \<^verbatim>\<open>update_canvas\<close>, lines 491 to 599, on a canvas of \<open>w\<close> by \<open>h\<close> pixels. The result is
  what was drawn and the poller; an exception leaves on the canvas what was drawn
  before it.
\<close>

text \<open>Lines 583 and 584: the ends of the time axis in seconds, \<^verbatim>\<open>x_min / 1000.0\<close>.\<close>

definition axis_seconds :: "int \<Rightarrow> int \<Rightarrow> error + pyfloat \<times> pyfloat" where
  "axis_seconds x_min x_max =
     and_then (float_of_int x_min) (\<lambda>a.
       and_then (fdiv a (Fin 1000)) (\<lambda>x_min_s.
         and_then (float_of_int x_max) (\<lambda>b.
           and_then (fdiv b (Fin 1000)) (\<lambda>x_max_s. Inr (x_min_s, x_max_s)))))"

definition render_locked :: "fonts \<Rightarrow> int \<Rightarrow> int \<Rightarrow> int \<Rightarrow> int \<Rightarrow> frame \<Rightarrow> frame outcome" where
  "render_locked fn left ytop right ybot fr =
     (case concat (map (\<lambda>(name, ch). items (xs ch)) (channels (obj fr))) of
        [] \<Rightarrow>
          Returns (fr\<lparr>drawn := drawn fr @
            [CanvasText (left - 60) (ybot + 18) ''nw'' (Plain []) ''white'' GridFont]\<rparr>)
      | v # l \<Rightarrow>
          (let x_min = fold min l v;
               x_max0 = fold max l v;
               x_max = (if x_min = x_max0 then x_min + 1 else x_max0)
           in case draw_channels fn left ytop right ybot x_min x_max (channels (obj fr)) fr of
                Returns fr1 \<Rightarrow>
                  (case axis_seconds x_min x_max of
                     Inl e \<Rightarrow> Raises e fr1
                   | Inr (x_min_s, x_max_s) \<Rightarrow>
                       (let fr2 = fr1\<lparr>drawn := drawn fr1 @
                              [CanvasText (left - 60) (ybot + 18) ''nw''
                                 (Fixed 1 x_min_s '' s'') ''white'' GridFont,
                               CanvasText (right + 0) (ybot + 18) ''ne''
                                 (Fixed 1 x_max_s '' s'') ''white'' GridFont],
                              legend_x := left\<rparr>
                        in Returns (draw_legend fn (ybot + 6) (channels (obj fr2)) fr2)))
              | Raises e fr1 \<Rightarrow> Raises e fr1
              | Blocks fr1 \<Rightarrow> Blocks fr1))"

definition update_canvas :: "fonts \<Rightarrow> int \<Rightarrow> int \<Rightarrow> poller \<Rightarrow> (draw list \<times> poller) outcome" where
  "update_canvas fn w h st =
     (if w < 10 \<or> h < 10 then Returns ([], st)
      else
        (let left = 70; ytop = 20; right = w - 20; ybot = h - 70;
             fr = \<lparr>drawn = [Rectangle left ytop right ybot], placed_label_rects = [],
                   legend_x = left, obj = st\<rparr>
         in if channels_lock st then Blocks (drawn fr, st)
            else
              (case render_locked fn left ytop right ybot (fr\<lparr>obj := st\<lparr>channels_lock := True\<rparr>\<rparr>) of
                 Returns fr1 \<Rightarrow> Returns (drawn fr1, (obj fr1)\<lparr>channels_lock := False\<rparr>)
               | Raises e fr1 \<Rightarrow> Raises e (drawn fr1, (obj fr1)\<lparr>channels_lock := False\<rparr>)
               | Blocks fr1 \<Rightarrow> Blocks (drawn fr1, obj fr1))))"

section \<open>The tooltip\<close>

text \<open>
  \<^verbatim>\<open>CanvasTooltip.show\<close>, lines 78 to 154, on a canvas of \<open>cw\<close> by \<open>ch\<close> pixels. The
  tooltip is its rectangle \<open>bounds\<close> and the texts drawn in it; \<open>hide\<close> leaves neither.
\<close>

record tooltip =
  bounds :: "(int \<times> int \<times> int \<times> int) option"
  tip_texts :: "draw list"

definition hide :: "tooltip \<Rightarrow> tooltip" where
  "hide tt = \<lparr>bounds = None, tip_texts = []\<rparr>"

definition contains_point :: "tooltip \<Rightarrow> int \<Rightarrow> int \<Rightarrow> bool" where
  "contains_point tt x y =
     (case bounds tt of
        None \<Rightarrow> False
      | Some (x0, y0, x1, y1) \<Rightarrow> (x0 \<le> x \<and> x \<le> x1) \<and> (y0 \<le> y \<and> y \<le> y1))"

text \<open>
  Lines 104 to 133 on one axis: the box \<open>[c - offset, c - offset + extent]\<close> is shifted
  back into \<open>[0, limit]\<close>, and placed anew if the cursor \<open>c\<close> is then outside it.
\<close>

definition place_axis :: "int \<Rightarrow> int \<Rightarrow> int \<Rightarrow> int \<times> int" where
  "place_axis c extent limit =
     (let a0 = c - TOOLTIP_OFFSET;
          b0 = a0 + extent;
          d = max 0 (b0 - limit);
          a1 = a0 - d;
          b1 = b0 - d;
          (a2, b2) = (if a1 < 0 then (a1 + (- a1), b1 + (- a1)) else (a1, b1))
      in if \<not> (a2 \<le> c \<and> c \<le> b2)
         then (let a3 = max 0 (min (c - TOOLTIP_OFFSET) (limit - extent)) in (a3, a3 + extent))
         else (a2, b2))"

text \<open>A text is false in a condition when it is the empty string.\<close>

fun label_empty :: "label \<Rightarrow> bool" where
  "label_empty (Plain s) = (s = [])"
| "label_empty l = False"

fun tip_lines :: "int \<Rightarrow> int \<Rightarrow> int \<Rightarrow> (label \<times> string) list \<Rightarrow> draw list" where
  "tip_lines tx cur_y text_h [] = []"
| "tip_lines tx cur_y text_h ((s, col) # rest) =
     CanvasText tx cur_y ''nw'' s col TipFont # tip_lines tx (cur_y + text_h) text_h rest"

definition show_tooltip ::
  "fonts \<Rightarrow> int \<Rightarrow> int \<Rightarrow> int \<Rightarrow> int \<Rightarrow> label \<Rightarrow> label list \<Rightarrow> string list \<Rightarrow> int \<Rightarrow> tooltip
     \<Rightarrow> tooltip" where
  "show_tooltip fn cw ch cursor_x cursor_y time_line channel_lines channel_colors pad tt =
     (let lines = (if \<not> label_empty time_line then [(time_line, ''white'')] else [])
                  @ zip channel_lines channel_colors
      in case map (\<lambda>(s, col). int (tip_measure fn s)) lines of
           [] \<Rightarrow> hide tt
         | wd # widths \<Rightarrow>
             (let text_w = fold max widths wd;
                  text_h = int (tip_linespace fn);
                  total_h = text_h * int (length lines);
                  (x0, x1) = place_axis cursor_x (text_w + pad * 2) cw;
                  (y0, y1) = place_axis cursor_y (total_h + pad * 2) ch
              in \<lparr>bounds = Some (x0, y0, x1, y1),
                  tip_texts = tip_lines (x0 + pad) (y0 + pad) text_h lines\<rparr>))"

subsection \<open>The mouse handler\<close>

text \<open>
  Lines 633 and 645: \<^verbatim>\<open>t_min + (x - left) / (right - left) * (t_max - t_min)\<close>, the time
  under the cursor on an axis from \<open>t_min\<close> to \<open>t_max\<close>, all of them integers.
\<close>

definition time_under_cursor :: "int \<Rightarrow> int \<Rightarrow> int \<Rightarrow> int \<Rightarrow> int \<Rightarrow> error + pyfloat" where
  "time_under_cursor x left right t_min t_max =
     and_then (int_truediv (x - left) (right - left)) (\<lambda>q.
       and_then (float_of_int (t_max - t_min)) (\<lambda>d.
         and_then (float_of_int t_min) (\<lambda>a. Inr (fadd a (fmul q d)))))"

text \<open>
  Line 647: \<^verbatim>\<open>min(range(len(xs)), key=lambda i: abs(xs[i] - x_val))\<close>, the first index
  whose timestamp is nearest to \<open>x_val\<close>. \<open>nearest_from\<close> goes through the rest of the
  list with the best index and distance so far.
\<close>

definition distance :: "int \<Rightarrow> pyfloat \<Rightarrow> error + pyfloat" where
  "distance v x_val = and_then (float_of_int v) (\<lambda>f. Inr (fabs (fsub f x_val)))"

fun nearest_from :: "pyfloat \<Rightarrow> nat \<Rightarrow> nat \<Rightarrow> pyfloat \<Rightarrow> int list \<Rightarrow> error + nat" where
  "nearest_from x_val i best best_d [] = Inr best"
| "nearest_from x_val i best best_d (v # l) =
     and_then (distance v x_val) (\<lambda>d.
       if fgt best_d d then nearest_from x_val (Suc i) i d l
       else nearest_from x_val (Suc i) best best_d l)"

fun nearest_index :: "int list \<Rightarrow> pyfloat \<Rightarrow> error + nat" where
  "nearest_index [] x_val = Inl ValueError"
| "nearest_index (v # l) x_val =
     and_then (distance v x_val) (\<lambda>d. nearest_from x_val 1 0 d l)"

text \<open>
  Lines 639 to 650: one line for each channel that has timestamps, with its colour.
  \<^verbatim>\<open>ch['vals'][idx]\<close> raises \<^verbatim>\<open>IndexError\<close> when \<open>vals\<close> is shorter than the index.
\<close>

fun channel_tips ::
  "int \<Rightarrow> int \<Rightarrow> int \<Rightarrow> (string \<times> channel) list \<Rightarrow> (label \<times> string) list \<Rightarrow> poller
     \<Rightarrow> ((label \<times> string) list \<times> poller) outcome" where
  "channel_tips x left right [] acc st = Returns (acc, st)"
| "channel_tips x left right ((name, ch) # rest) acc st =
     (case items (xs ch) of
        [] \<Rightarrow> channel_tips x left right rest acc st
      | v # l \<Rightarrow>
          (let x_min = fold min l v;
               x_max = fold max l v
           in case (if x_min = x_max then Inr 0
                    else and_then (time_under_cursor x left right x_min x_max)
                           (nearest_index (v # l))) of
                Inl e \<Rightarrow> Raises e (acc, st)
              | Inr idx \<Rightarrow>
                  if idx < length (items (vals ch))
                  then (let (color, st1) = assign_color name st
                        in channel_tips x left right rest
                             (acc @ [(ValueLine name (items (vals ch) ! idx), color)]) st1)
                  else Raises IndexError (acc, st)))"

text \<open>
  \<^verbatim>\<open>on_mouse_move\<close>, lines 601 to 654, for a motion event at \<open>(x, y)\<close> on a canvas of
  \<open>w\<close> by \<open>h\<close> pixels. The result is the tooltip and the poller.
\<close>

definition tooltip_content ::
  "int \<Rightarrow> int \<Rightarrow> int \<Rightarrow> poller \<Rightarrow> ((label \<times> (label \<times> string) list) option \<times> poller) outcome" where
  "tooltip_content x left right st =
     (case concat (map (\<lambda>(name, ch). items (xs ch)) (channels st)) of
        [] \<Rightarrow> Returns (None, st)
      | v # l \<Rightarrow>
          (let gx_min = fold min l v;
               gx_max0 = fold max l v;
               gx_max = (if gx_min = gx_max0 then gx_min + 1 else gx_max0)
           in case and_then (time_under_cursor x left right gx_min gx_max)
                     (\<lambda>x_val_global. fdiv x_val_global (Fin 1000)) of
                Inl e \<Rightarrow> Raises e (None, st)
              | Inr time_s \<Rightarrow>
                  (case channel_tips x left right (channels st) [] st of
                     Returns (tips, st1) \<Rightarrow> Returns (Some (TimeLine time_s, tips), st1)
                   | Raises e (tips, st1) \<Rightarrow> Raises e (None, st1)
                   | Blocks (tips, st1) \<Rightarrow> Blocks (None, st1))))"

definition on_mouse_move ::
  "fonts \<Rightarrow> int \<Rightarrow> int \<Rightarrow> int \<Rightarrow> int \<Rightarrow> tooltip \<Rightarrow> poller \<Rightarrow> (tooltip \<times> poller) outcome" where
  "on_mouse_move fn w h x y tt st =
     (let left = 70; ytop = 20; right = w - 20; ybot = h - 70
      in if x < left \<or> x > right \<or> y < ytop \<or> y > ybot then Returns (hide tt, st)
         else if bounds tt \<noteq> None \<and> contains_point tt x y then Returns (tt, st)
         else
           (let tt1 = (if bounds tt \<noteq> None \<and> \<not> contains_point tt x y then hide tt else tt)
            in if channels_lock st then Blocks (tt1, st)
               else
                 (case tooltip_content x left right (st\<lparr>channels_lock := True\<rparr>) of
                    Returns (content, st1) \<Rightarrow>
                      Returns
                        ((case content of
                            None \<Rightarrow> tt1
                          | Some (time_line, tips) \<Rightarrow>
                              if tips \<noteq> []
                              then show_tooltip fn w h x y time_line (map fst tips) (map snd tips) 6 tt1
                              else tt1),
                         st1\<lparr>channels_lock := False\<rparr>)
                  | Raises e (content, st1) \<Rightarrow> Raises e (tt1, st1\<lparr>channels_lock := False\<rparr>)
                  | Blocks (content, st1) \<Rightarrow> Blocks (tt1, st1))))"

section \<open>Invariants of the registry\<close>

text \<open>
  The states a poller can be in: those of a new object, and those that the commands,
  the poll loop and the renderer make of them. The poll loop runs only while its thread
  lives and is not blocked; the state an operation raises or blocks in counts too.
\<close>

definition every_channel :: "(channel \<Rightarrow> bool) \<Rightarrow> poller \<Rightarrow> bool" where
  "every_channel P st = list_all (\<lambda>(name, ch). P ch) (channels st)"

text \<open>Every deque of a channel has the bound \<open>MAX_POINTS\<close> and keeps to it.\<close>

definition within_capacity :: "channel \<Rightarrow> bool" where
  "within_capacity ch =
     (maxlen (xs ch) = MAX_POINTS \<and> maxlen (ys ch) = MAX_POINTS \<and> maxlen (vals ch) = MAX_POINTS \<and>
      length (items (xs ch)) \<le> MAX_POINTS \<and> length (items (ys ch)) \<le> MAX_POINTS \<and>
      length (items (vals ch)) \<le> MAX_POINTS)"

text \<open>The three sequences of a channel go in step, and \<open>ys\<close> holds the magnitudes of \<open>vals\<close>.\<close>

definition aligned :: "channel \<Rightarrow> bool" where
  "aligned ch =
     (maxlen (xs ch) = maxlen (ys ch) \<and> maxlen (ys ch) = maxlen (vals ch) \<and>
      length (items (xs ch)) = length (items (ys ch)) \<and>
      length (items (ys ch)) = length (items (vals ch)) \<and>
      items (ys ch) = map fabs (items (vals ch)))"

inductive reachable :: "poller \<Rightarrow> bool" where
  r_init: "reachable (init a)"
| r_start: "reachable st \<Longrightarrow> reachable (start_polling_thread now st)"
| r_pause: "reachable st \<Longrightarrow> reachable (pause_polling now st)"
| r_resume: "reachable st \<Longrightarrow> reachable (resume_polling now st)"
| r_restart: "reachable st \<Longrightarrow> reachable (state_of (restart_polling now st))"
| r_poll: "reachable st \<Longrightarrow> alive st \<Longrightarrow> \<not> channels_lock st \<Longrightarrow>
     reachable (state_of (poll_iteration now tr st))"
| r_render: "reachable st \<Longrightarrow> reachable (snd (state_of (update_canvas fn w h st)))"

section \<open>Invariants of the label layout\<close>

text \<open>
  The candidates of the probing loop: candidate \<open>j\<close>, the one the loop tests when
  \<open>attempt\<close> is \<open>j\<close>, is \<open>offset j\<close> steps of \<open>text_h + 2\<close> pixels away from the
  wanted place: 0, -1, 1, -2, 2 and so on.
\<close>

definition offset :: "nat \<Rightarrow> int" where
  "offset j = (if odd j then - (int (j div 2) + 1) else int (j div 2))"

definition candidate :: "int \<Rightarrow> int \<Rightarrow> nat \<Rightarrow> int" where
  "candidate text_h desired_top j = desired_top + offset j * (text_h + 2)"

text \<open>The candidates among the 50 tested that overlap a label placed before.\<close>

definition blocked :: "(int \<times> int) list \<Rightarrow> int \<Rightarrow> int \<Rightarrow> nat set" where
  "blocked placed text_h desired_top =
     {i. i < 50 \<and> overlaps placed (candidate text_h desired_top i)
                     (candidate text_h desired_top i + text_h)}"

text \<open>The label rectangles of a frame: inside the plot, and as high as a label.\<close>

definition labels_within :: "fonts \<Rightarrow> int \<Rightarrow> int \<Rightarrow> frame \<Rightarrow> bool" where
  "labels_within fn ytop ybot fr =
     list_all (\<lambda>(t, b). ytop \<le> t \<and> b \<le> ybot \<and> b - t = int (grid_linespace fn) + 2)
       (placed_label_rects fr)"

section \<open>Invariants of the floats\<close>

text \<open>
  The normal form that \<open>to_normal_form\<close> brings a positive number to, a magnitude of at most
  \<open>2 ^ k\<close>, and the stored values that are finite doubles.
\<close>

definition normal_form :: "real \<Rightarrow> int \<Rightarrow> bool" where
  "normal_form m e = (0 < m \<and> m < 2 ^ 53 \<and> - 1074 \<le> e \<and> (2 ^ 52 \<le> m \<or> e = - 1074))"

definition mag_le :: "int \<Rightarrow> real \<Rightarrow> bool" where
  "mag_le k x = (\<bar>x\<bar> \<le> 2 powi k)"

fun finite_double :: "pyfloat \<Rightarrow> bool" where
  "finite_double (Fin r) = (round_double r = Fin r)"
| "finite_double f = False"

section \<open>Rounding\<close>

lemma scale_down_normal:
  "2 ^ 52 \<le> m \<Longrightarrow> 0 \<le> e \<Longrightarrow>
     (case scale_down m e of (m', e') \<Rightarrow> m' * 2 powi e' = m * 2 powi e \<and> normal_form m' e')"
proof (induction m e rule: scale_down.induct)
  case (1 m e)
  show ?case
  proof (cases "2 ^ 53 \<le> m")
    case True
    have a: "2 ^ 52 \<le> m / 2" using True by simp
    have b: "0 \<le> e + 1" using 1 by simp
    have ih: "(case scale_down (m / 2) (e + 1) of
        (m', e') \<Rightarrow> m' * 2 powi e' = m / 2 * 2 powi (e + 1) \<and> normal_form m' e')"
      by (rule "1.IH" [OF True a b])
    have "m / 2 * 2 powi (e + 1) = m * 2 powi e"
      by (simp add: power_int_add)
    then show ?thesis using ih True by (subst scale_down.simps) (simp add: case_prod_unfold)
  next
    case False
    then show ?thesis using 1 by (subst scale_down.simps) (simp add: normal_form_def)
  qed
qed

lemma scale_up_normal:
  "0 < m \<Longrightarrow> m < 2 ^ 53 \<Longrightarrow> - 1074 \<le> e \<Longrightarrow>
     (case scale_up m e of (m', e') \<Rightarrow> m' * 2 powi e' = m * 2 powi e \<and> normal_form m' e')"
proof (induction m e rule: scale_up.induct)
  case (1 m e)
  show ?case
  proof (cases "m < 2 ^ 52 \<and> - 1074 < e")
    case True
    have a: "0 < m * 2" "m * 2 < 2 ^ 53" "- 1074 \<le> e - 1" using True 1 by simp_all
    have ih: "(case scale_up (m * 2) (e - 1) of
        (m', e') \<Rightarrow> m' * 2 powi e' = m * 2 * 2 powi (e - 1) \<and> normal_form m' e')"
      by (rule "1.IH" [OF True a])
    have "m * 2 * 2 powi (e - 1) = m * 2 powi e"
      by (simp add: power_int_diff)
    then show ?thesis using ih True by (subst scale_up.simps) (simp add: case_prod_unfold)
  next
    case False
    then show ?thesis using 1 by (subst scale_up.simps) (auto simp: normal_form_def)
  qed
qed

lemma to_normal_form_holds:
  assumes "0 < a"
  shows "fst (to_normal_form a) * 2 powi snd (to_normal_form a) = a
     \<and> normal_form (fst (to_normal_form a)) (snd (to_normal_form a))"
proof (cases "2 ^ 53 \<le> a")
  case True
  then have "2 ^ 52 \<le> a" by simp
  from scale_down_normal [OF this, of 0] show ?thesis
    using True by (simp add: to_normal_form_def case_prod_unfold)
next
  case False
  from scale_up_normal [OF assms, of 0] show ?thesis
    using False by (simp add: to_normal_form_def case_prod_unfold)
qed

lemma round_even_of_int: "round_even (of_int n) = n"
  by (simp add: round_even_def)

lemma round_even_le: "m \<le> of_int N \<Longrightarrow> round_even m \<le> N"
proof -
  assume a: "m \<le> of_int N"
  have f: "\<lfloor>m\<rfloor> \<le> N" using a by (simp add: floor_le_iff)
  show ?thesis
  proof (cases "\<lfloor>m\<rfloor> = N")
    case True
    then have "m - of_int \<lfloor>m\<rfloor> \<le> 0" using a by simp
    then show ?thesis using True by (simp add: round_even_def Let_def)
  next
    case False
    then have "\<lfloor>m\<rfloor> + 1 \<le> N" using f by simp
    then show ?thesis using f by (auto simp: round_even_def Let_def)
  qed
qed

lemma round_even_nonneg: "0 \<le> m \<Longrightarrow> 0 \<le> round_even m"
  by (auto simp: round_even_def Let_def)

lemma normal_form_not_less:
  assumes nf: "normal_form m e" and nf': "normal_form m' e'"
    and eq: "m * 2 powi e = m' * 2 powi e'"
  shows "\<not> e < e'"
proof
  assume lt: "e < e'"
  then have "e' \<noteq> - 1074" using nf by (simp add: normal_form_def)
  then have m': "2 ^ 52 \<le> m'" using nf' by (auto simp: normal_form_def)
  have "m * 2 powi e = m' * (2 powi (e' - e) * 2 powi e)"
    unfolding eq by (simp add: power_int_diff)
  then have m: "m = m' * 2 powi (e' - e)" by simp
  have "(2::real) powi 1 \<le> 2 powi (e' - e)"
    using lt by (intro power_int_increasing) simp_all
  then have "2 \<le> (2::real) powi (e' - e)" by simp
  then have "m' * 2 \<le> m' * 2 powi (e' - e)"
    using m' by (intro mult_left_mono) simp_all
  then have a: "m' * 2 \<le> m" using m by simp
  have b: "(2::real) ^ 53 \<le> m' * 2" using m' by simp
  have "m < 2 ^ 53" using nf by (simp add: normal_form_def)
  with a b show False by linarith
qed

lemma normal_form_unique:
  assumes "normal_form m e" "normal_form m' e'" "m * 2 powi e = m' * 2 powi e'"
  shows "e = e' \<and> m = m'"
proof -
  have "\<not> e < e'" using assms by (rule normal_form_not_less)
  moreover have "\<not> e' < e" using assms(2,1) assms(3) [symmetric] by (rule normal_form_not_less)
  ultimately have e: "e = e'" by simp
  then show ?thesis using assms(3) by simp
qed

lemma to_normal_form_eq:
  assumes "normal_form m e"
  shows "to_normal_form (m * 2 powi e) = (m, e)"
proof -
  have pos: "0 < m * 2 powi e" using assms by (simp add: normal_form_def)
  from to_normal_form_holds [OF pos] normal_form_unique [OF _ assms]
  have "snd (to_normal_form (m * 2 powi e)) = e \<and> fst (to_normal_form (m * 2 powi e)) = m"
    by blast
  then show ?thesis by (simp add: prod_eq_iff)
qed

text \<open>A positive number in normal form.\<close>

lemma round_double_normal:
  assumes "normal_form m e"
  shows "round_double (m * 2 powi e) =
     (if 2 ^ 1024 \<le> real_of_int (round_even m) * 2 powi e then PInf
      else Fin (real_of_int (round_even m) * 2 powi e))"
proof -
  have m: "0 < m" using assms by (simp add: normal_form_def)
  then have pos: "0 < m * 2 powi e" by simp
  have a: "\<bar>m * 2 powi e\<bar> = m * 2 powi e" "(m * 2 powi e = 0) = False"
      "(m * 2 powi e < 0) = False"
    using m pos by (simp_all add: not_less less_imp_le)
  show ?thesis
    unfolding round_double_def a to_normal_form_eq [OF assms] if_False Let_def prod.case
    by (rule refl)
qed

lemma round_double_minus: "round_double (- x) = fneg (round_double x)"
  by (simp add: round_double_def Let_def case_prod_unfold)

lemma round_double_zero: "round_double 0 = Fin 0"
  by (simp add: round_double_def)

lemma exists_normal_form:
  assumes "0 < a"
  shows "\<exists>m e. normal_form m e \<and> a = m * 2 powi e"
  using to_normal_form_holds [OF assms] by metis

text \<open>Rounding keeps a bound that is a power of two.\<close>

lemma round_double_bound_pos:
  assumes a: "0 < a" and le: "a \<le> 2 powi k" and k: "- 1074 \<le> k" "k \<le> 1023"
  shows "\<exists>r. round_double a = Fin r \<and> 0 \<le> r \<and> r \<le> 2 powi k"
proof -
  from exists_normal_form [OF a] obtain m e where nf: "normal_form m e" and eq: "a = m * 2 powi e"
    by blast
  have ek: "e \<le> k"
  proof (cases "e = - 1074")
    case True
    then show ?thesis using k by simp
  next
    case False
    then have "2 ^ 52 \<le> m" using nf by (auto simp: normal_form_def)
    then have "2 ^ 52 * 2 powi e \<le> m * 2 powi e" by (intro mult_right_mono) simp_all
    moreover have "(2::real) powi (52 + e) = 2 ^ 52 * 2 powi e" by (simp add: power_int_add)
    ultimately have "(2::real) powi (52 + e) \<le> 2 powi k" using le eq by linarith
    then have "52 + e \<le> k"
      using power_int_strict_increasing [of k "52 + e" "2::real"] by (cases "52 + e \<le> k") simp_all
    then show ?thesis by simp
  qed
  define N :: int where "N = 2 ^ nat (k - e)"
  have N: "real_of_int N * 2 powi e = 2 powi k"
  proof -
    have "real_of_int N = 2 powi (k - e)" using ek by (simp add: N_def power_int_def)
    then show ?thesis by (simp add: power_int_diff)
  qed
  have "m * 2 powi e \<le> real_of_int N * 2 powi e" using le eq N by simp
  then have "m \<le> real_of_int N" by simp
  then have rn: "round_even m \<le> N" by (rule round_even_le)
  have r0: "0 \<le> round_even m" using nf by (intro round_even_nonneg) (simp add: normal_form_def)
  define r where "r = real_of_int (round_even m) * 2 powi e"
  have r_le: "r \<le> 2 powi k"
  proof -
    have "real_of_int (round_even m) * 2 powi e \<le> real_of_int N * 2 powi e"
      using rn by (intro mult_right_mono) simp_all
    then show ?thesis using N by (simp add: r_def)
  qed
  have "(2::real) powi k \<le> 2 powi 1023" using k by (intro power_int_increasing) simp_all
  also have "\<dots> < 2 ^ 1024" by simp
  finally have "r < 2 ^ 1024" using r_le by simp
  then have "round_double a = Fin r"
    unfolding eq r_def using round_double_normal [OF nf] by simp
  moreover have "0 \<le> r" using r0 by (simp add: r_def)
  ultimately show ?thesis using r_le by blast
qed

lemma round_double_bound:
  assumes le: "\<bar>x\<bar> \<le> 2 powi k" and k: "- 1074 \<le> k" "k \<le> 1023"
  shows "\<exists>r. round_double x = Fin r \<and> \<bar>r\<bar> \<le> 2 powi k
           \<and> (0 \<le> x \<longrightarrow> 0 \<le> r) \<and> (x \<le> 0 \<longrightarrow> r \<le> 0)"
proof -
  consider "x = 0" | "0 < x" | "x < 0" by linarith
  then show ?thesis
  proof cases
    case 1
    then show ?thesis by (simp add: round_double_zero)
  next
    case 2
    then have "x \<le> 2 powi k" using le by simp
    from round_double_bound_pos [OF 2 this k] 2 show ?thesis by auto
  next
    case 3
    then have p: "0 < - x" "- x \<le> 2 powi k" using le by simp_all
    from round_double_bound_pos [OF p k] obtain r where
      r: "round_double (- x) = Fin r" "0 \<le> r" "r \<le> 2 powi k" by blast
    have "round_double x = fneg (round_double (- x))"
      using round_double_minus [of "- x"] by simp
    then have "round_double x = Fin (- r)" using r by simp
    then show ?thesis using r 3 by auto
  qed
qed


text \<open>Evaluation: the scaled number is given.\<close>

lemma round_double_up:
  assumes "2 ^ 52 \<le> x * 2 ^ k" "x * 2 ^ k < 2 ^ 53" "k \<le> 1074"
  shows "round_double x = Fin (real_of_int (round_even (x * 2 ^ k)) / 2 ^ k)"
proof -
  have nf: "normal_form (x * 2 ^ k) (- int k)"
    using assms by (simp add: normal_form_def)
  have x: "x * 2 ^ k * 2 powi (- int k) = x"
    by (simp add: power_int_minus)
  have "round_even (x * 2 ^ k) \<le> 2 ^ 53"
    using assms(2) by (intro round_even_le) simp
  then have "real_of_int (round_even (x * 2 ^ k)) \<le> 2 ^ 53"
    by (metis of_int_le_iff of_int_numeral of_int_power)
  moreover have "(2::real) powi (- int k) \<le> 1"
    by (simp add: power_int_minus field_simps)
  moreover have "0 \<le> real_of_int (round_even (x * 2 ^ k))"
    using assms(1) by (simp add: round_even_nonneg less_imp_le order_trans [of 0 "2 ^ 52"])
  ultimately have "real_of_int (round_even (x * 2 ^ k)) * 2 powi (- int k) \<le> 2 ^ 53 * 1"
    by (intro mult_mono) simp_all
  moreover have "(2::real) ^ 53 * 1 < 2 ^ 1024" by simp
  ultimately have "\<not> 2 ^ 1024 \<le> real_of_int (round_even (x * 2 ^ k)) * 2 powi (- int k)"
    by linarith
  then show ?thesis
    using round_double_normal [OF nf] unfolding x
    by (simp add: power_int_minus field_simps)
qed

lemma round_double_down:
  assumes "2 ^ 52 \<le> x / 2 ^ k" "x / 2 ^ k < 2 ^ 53" "k \<le> 970"
  shows "round_double x = Fin (real_of_int (round_even (x / 2 ^ k)) * 2 ^ k)"
proof -
  have nf: "normal_form (x / 2 ^ k) (int k)"
    using assms by (simp add: normal_form_def)
  have x: "x / 2 ^ k * 2 powi (int k) = x"
    by simp
  have "round_even (x / 2 ^ k) \<le> 2 ^ 53"
    using assms(2) by (intro round_even_le) simp
  then have "real_of_int (round_even (x / 2 ^ k)) \<le> 2 ^ 53"
    by (metis of_int_le_iff of_int_numeral of_int_power)
  moreover have "(2::real) ^ k \<le> 2 ^ 970"
    using assms(3) by (intro power_increasing) simp_all
  moreover have "0 \<le> real_of_int (round_even (x / 2 ^ k))"
    using assms(1) by (simp add: round_even_nonneg less_imp_le order_trans [of 0 "2 ^ 52"])
  ultimately have "real_of_int (round_even (x / 2 ^ k)) * 2 ^ k \<le> 2 ^ 53 * 2 ^ 970"
    by (intro mult_mono) simp_all
  moreover have "(2::real) ^ 53 * 2 ^ 970 < 2 ^ 1024" by simp
  ultimately have "\<not> 2 ^ 1024 \<le> real_of_int (round_even (x / 2 ^ k)) * 2 powi (int k)"
    by simp
  then show ?thesis
    using round_double_normal [OF nf] unfolding x by simp
qed

text \<open>A positive number lies between two neighbouring powers of two.\<close>

lemma round_even_ge: "of_int N \<le> m \<Longrightarrow> N \<le> round_even m"
proof -
  assume "of_int N \<le> m"
  then have "N \<le> \<lfloor>m\<rfloor>" by (simp add: le_floor_iff)
  then show ?thesis by (auto simp: round_even_def Let_def)
qed

text \<open>A number of \<open>2 ^ 1024\<close> or more is rounded to an infinity.\<close>

lemma round_double_overflow:
  assumes "2 ^ 1024 \<le> x"
  shows "round_double x = PInf"
proof -
  have pos: "0 < x" using assms by (rule less_le_trans [rotated]) simp
  from exists_normal_form [OF pos] obtain m e where nf: "normal_form m e" and eq: "x = m * 2 powi e"
    by blast
  have m: "0 < m" "m < 2 ^ 53" using nf by (simp_all add: normal_form_def)
  have e: "972 \<le> e"
  proof (rule ccontr)
    assume "\<not> 972 \<le> e"
    then have "e \<le> 971" by simp
    then have "(2::real) powi e \<le> 2 powi 971" by (intro power_int_increasing) simp_all
    then have "m * 2 powi e \<le> m * 2 powi 971" using m(1) by (intro mult_left_mono) simp_all
    also have "\<dots> < 2 ^ 53 * 2 powi 971" using m(2) by (intro mult_strict_right_mono) simp_all
    also have "\<dots> = 2 ^ 1024" by simp
    finally show False using assms eq by simp
  qed
  then have "e \<noteq> - 1074" by simp
  then have m52: "2 ^ 52 \<le> m" using nf by (auto simp: normal_form_def)
  have "real_of_int (2 ^ 52) \<le> m" using m52 by simp
  then have "2 ^ 52 \<le> round_even m" by (rule round_even_ge)
  then have r: "(2::real) ^ 52 \<le> real_of_int (round_even m)"
    by (metis of_int_le_iff of_int_numeral of_int_power)
  have "(2::real) powi 972 \<le> 2 powi e" using e by (intro power_int_increasing) simp_all
  with r have "2 ^ 52 * 2 powi 972 \<le> real_of_int (round_even m) * 2 powi e"
    by (intro mult_mono) simp_all
  moreover have "(2::real) ^ 52 * 2 powi 972 = 2 ^ 1024" by simp
  ultimately have "2 ^ 1024 \<le> real_of_int (round_even m) * 2 powi e" by simp
  then show ?thesis unfolding eq using round_double_normal [OF nf] by simp
qed

text \<open>Evaluation of a large number.\<close>

lemma round_double_large:
  assumes "2 ^ 52 \<le> x / 2 ^ k" "x / 2 ^ k < 2 ^ 53"
    and "real_of_int (round_even (x / 2 ^ k)) * 2 ^ k < 2 ^ 1024"
  shows "round_double x = Fin (real_of_int (round_even (x / 2 ^ k)) * 2 ^ k)"
proof -
  have nf: "normal_form (x / 2 ^ k) (int k)"
    using assms by (simp add: normal_form_def)
  have x: "x / 2 ^ k * 2 powi (int k) = x"
    by simp
  show ?thesis
    using round_double_normal [OF nf] assms(3) unfolding x by simp
qed

lemma two_powr_int: "2 powr real_of_int n = (2::real) powi n"
  by (simp add: powr_real_of_int')

lemma binade:
  assumes "0 < (x::real)"
  shows "\<exists>j. 2 powi (j - 1) \<le> x \<and> x < 2 powi j"
proof -
  define y where "y = log 2 x"
  have x: "x = 2 powr y" using assms by (simp add: y_def)
  have "2 powr real_of_int \<lfloor>y\<rfloor> \<le> 2 powr y"
    by (intro powr_mono) simp_all
  moreover have "2 powr y < 2 powr real_of_int (\<lfloor>y\<rfloor> + 1)"
    by (intro powr_less_mono) simp_all
  moreover have "2 powr real_of_int \<lfloor>y\<rfloor> = (2::real) powi \<lfloor>y\<rfloor>"
      "2 powr real_of_int (\<lfloor>y\<rfloor> + 1) = (2::real) powi (\<lfloor>y\<rfloor> + 1)"
    by (rule two_powr_int)+
  ultimately have "2 powi \<lfloor>y\<rfloor> \<le> x \<and> x < 2 powi (\<lfloor>y\<rfloor> + 1)"
    unfolding x [symmetric] by (simp only:)
  then show ?thesis by (intro exI [of _ "\<lfloor>y\<rfloor> + 1"]) simp
qed

text \<open>The least positive double.\<close>

lemma double_ge_min:
  assumes d: "round_double x = Fin x" and pos: "0 < x"
  shows "2 powi (- 1074) \<le> x"
proof -
  from exists_normal_form [OF pos] obtain m e where nf: "normal_form m e" and eq: "x = m * 2 powi e"
    by blast
  define n where "n = round_even m"
  have "round_double x =
     (if 2 ^ 1024 \<le> real_of_int n * 2 powi e then PInf else Fin (real_of_int n * 2 powi e))"
    unfolding eq n_def by (rule round_double_normal [OF nf])
  then have xn: "x = real_of_int n * 2 powi e"
    using d by (simp split: if_splits)
  have "0 < real_of_int n * 2 powi e" using pos xn by simp
  moreover have "(0::real) < 2 powi e" by simp
  ultimately have "0 < real_of_int n" by (simp add: zero_less_mult_iff not_less less_imp_le)
  then have "1 \<le> n" by simp
  then have "1 \<le> real_of_int n" by simp
  then have "1 * 2 powi e \<le> real_of_int n * 2 powi e"
    by (intro mult_right_mono) simp_all
  moreover have "(2::real) powi (- 1074) \<le> 2 powi e"
    using nf by (intro power_int_increasing) (simp_all add: normal_form_def)
  ultimately show ?thesis unfolding xn by linarith
qed

lemma mag_round:
  assumes "mag_le k x" "- 1074 \<le> k" "k \<le> 1023"
  shows "\<exists>r. round_double x = Fin r \<and> mag_le k r \<and> (0 \<le> x \<longrightarrow> 0 \<le> r)"
  using round_double_bound [of x k] assms unfolding mag_le_def by blast

lemma mag_mono: "mag_le k x \<Longrightarrow> k \<le> k' \<Longrightarrow> mag_le k' x"
  unfolding mag_le_def using power_int_increasing [of k k' "2::real"] by simp

lemma mag_add: "mag_le k x \<Longrightarrow> mag_le k y \<Longrightarrow> mag_le (k + 1) (x + y)"
  unfolding mag_le_def by (simp add: power_int_add)

lemma mag_diff: "mag_le k x \<Longrightarrow> mag_le k y \<Longrightarrow> mag_le (k + 1) (x - y)"
  unfolding mag_le_def by (simp add: power_int_add)

lemma mag_mult: "mag_le j x \<Longrightarrow> mag_le k y \<Longrightarrow> mag_le (j + k) (x * y)"
  unfolding mag_le_def by (simp add: power_int_add abs_mult mult_mono)

lemma mag_div:
  assumes "mag_le j x" "2 powi k \<le> \<bar>y\<bar>"
  shows "mag_le (j - k) (x / y)"
proof -
  have pos: "(0::real) < 2 powi k" by simp
  then have y: "0 < \<bar>y\<bar>" using assms(2) by linarith
  have "\<bar>x\<bar> / \<bar>y\<bar> \<le> 2 powi j / 2 powi k"
    using assms pos y unfolding mag_le_def by (intro frac_le) simp_all
  then show ?thesis
    unfolding mag_le_def by (simp add: power_int_diff)
qed

lemma mag_minus: "mag_le k (- x) = mag_le k x"
  by (simp add: mag_le_def)

lemma mag_of_nonneg: "0 \<le> x \<Longrightarrow> x \<le> 2 powi k \<Longrightarrow> mag_le k x"
  by (simp add: mag_le_def)

lemma float_of_int_mag:
  assumes "mag_le k (real_of_int n)" "- 1074 \<le> k" "k \<le> 1023"
  shows "\<exists>r. float_of_int n = Inr (Fin r) \<and> mag_le k r"
  using mag_round [OF assms] by (auto simp: float_of_int_def)

text \<open>The pixel of a timestamp between the ends of the time axis.\<close>

lemma x_pixel_returns:
  assumes x: "x_min < x_max" "x_min \<le> xv" "xv \<le> x_max"
    and l: "mag_le 1000 (real_of_int left)" and d: "mag_le 1000 (real_of_int (right - left))"
  shows "\<exists>p. x_pixel left right x_min x_max xv = Inr p"
proof -
  have "0 \<le> real_of_int (xv - x_min) / real_of_int (x_max - x_min)"
    "real_of_int (xv - x_min) / real_of_int (x_max - x_min) \<le> 1"
    using x by simp_all
  then have "mag_le 0 (real_of_int (xv - x_min) / real_of_int (x_max - x_min))"
    by (intro mag_of_nonneg) simp_all
  from mag_round [OF this] obtain q where
    q: "round_double (real_of_int (xv - x_min) / real_of_int (x_max - x_min)) = Fin q" "mag_le 0 q"
    by auto
  have q': "int_truediv (xv - x_min) (x_max - x_min) = Inr (Fin q)"
    using x(1) q(1) by (simp add: int_truediv_def)
  from float_of_int_mag [OF d] obtain fd where
    fd: "float_of_int (right - left) = Inr (Fin fd)" "mag_le 1000 fd" by auto
  from float_of_int_mag [OF l] obtain fl where
    fl: "float_of_int left = Inr (Fin fl)" "mag_le 1000 fl" by auto
  have "mag_le (0 + 1000) (q * fd)" using q(2) fd(2) by (rule mag_mult)
  then have "mag_le 1000 (q * fd)" by simp
  from mag_round [OF this] obtain p where p: "round_double (q * fd) = Fin p" "mag_le 1000 p"
    by auto
  have "mag_le (1000 + 1) (fl + p)" using fl(2) p(2) by (rule mag_add)
  then have "mag_le 1001 (fl + p)" by simp
  from mag_round [OF this] obtain s where s: "round_double (fl + p) = Fin s" by auto
  show ?thesis
    unfolding x_pixel_def q' fd fl and_then_def by (simp add: p s)
qed

lemma float_of_int_small: "n \<le> 5 \<Longrightarrow> float_of_int (int n) = Inr (Fin (real n))"
proof -
  assume "n \<le> 5"
  then consider "n = 0" | "n = 1" | "n = 2" | "n = 3" | "n = 4" | "n = 5" by linarith
  then show ?thesis
  proof cases
    case 1
    then show ?thesis by (simp add: float_of_int_def round_double_zero)
  next
    case 2
    then show ?thesis
      by (simp add: float_of_int_def round_double_up [where k = 52] round_even_def)
  next
    case 3
    then show ?thesis
      by (simp add: float_of_int_def round_double_up [where k = 51] round_even_def)
  next
    case 4
    then show ?thesis
      by (simp add: float_of_int_def round_double_up [where k = 51] round_even_def)
  next
    case 5
    then show ?thesis
      by (simp add: float_of_int_def round_double_up [where k = 50] round_even_def)
  next
    case 6
    then show ?thesis
      by (simp add: float_of_int_def round_double_up [where k = 50] round_even_def)
  qed
qed

lemma fsub_zero: "round_double m = Fin m \<Longrightarrow> fsub (Fin m) (Fin 0) = Fin m"
  by (simp add: fsub_def)

text \<open>The pixel of a value that is at most eight times the top of the Y domain.\<close>

lemma y_pixel_returns:
  assumes m: "round_double m = Fin m" "0 < m" "2 powi (j - 1) \<le> m"
    and v: "mag_le (j + 2) v" and j: "- 1076 \<le> j" "j \<le> 1021"
    and b: "mag_le 1000 (real_of_int ybot)" and d: "mag_le 1000 (real_of_int (ybot - ytop))"
  shows "\<exists>p. y_pixel ytop ybot (Fin 0) (Fin m) (Fin v) = Inr p"
proof -
  have j2: "- 1074 \<le> j + 2" "j + 2 \<le> 1023" using j by simp_all
  from mag_round [OF v j2] obtain a where a: "round_double v = Fin a" "mag_le (j + 2) a"
    by auto
  have a': "fsub (Fin v) (Fin 0) = Fin a" using a(1) by (simp add: fsub_def)
  have "2 powi (j - 1) \<le> \<bar>m\<bar>" using m by simp
  with a(2) have "mag_le (j + 2 - (j - 1)) (a / m)" by (rule mag_div)
  then have "mag_le 3 (a / m)" by simp
  from mag_round [OF this] obtain q where q: "round_double (a / m) = Fin q" "mag_le 3 q"
    by auto
  have q': "fdiv (Fin a) (Fin m) = Inr (Fin q)" using m(2) q(1) by simp
  from float_of_int_mag [OF d] obtain fd where
    fd: "float_of_int (ybot - ytop) = Inr (Fin fd)" "mag_le 1000 fd" by auto
  from float_of_int_mag [OF b] obtain fb where
    fb: "float_of_int ybot = Inr (Fin fb)" "mag_le 1000 fb" by auto
  have "mag_le (3 + 1000) (q * fd)" using q(2) fd(2) by (rule mag_mult)
  then have "mag_le 1003 (q * fd)" by simp
  from mag_round [OF this] obtain p where p: "round_double (q * fd) = Fin p" "mag_le 1003 p"
    by auto
  have "mag_le 1003 fb" using fb(2) by (rule mag_mono) simp
  then have "mag_le (1003 + 1) (fb - p)" using p(2) by (rule mag_diff)
  then have "mag_le 1004 (fb - p)" by simp
  from mag_round [OF this] obtain r where r: "round_double (fb - p) = Fin r" by auto
  show ?thesis
    unfolding y_pixel_def a' fsub_zero [OF m(1)] q' fd fb and_then_def
    by (simp add: p fsub_def r)
qed

text \<open>The band step and the values of the grid lines.\<close>

lemma step_returns:
  assumes m: "round_double m = Fin m" "0 < m" "m \<le> 2 powi j" and j: "- 1074 \<le> j" "j \<le> 1023"
  shows "\<exists>s. fdiv (fsub (Fin m) (Fin 0)) (Fin (real GRID_LINES)) = Inr (Fin s)
           \<and> 0 \<le> s \<and> mag_le j s"
proof -
  have "0 \<le> m / 5" "m / 5 \<le> 2 powi j" using m by simp_all
  then have "mag_le j (m / 5)" by (intro mag_of_nonneg)
  from mag_round [OF this j] obtain s where s: "round_double (m / 5) = Fin s" "mag_le j s" "0 \<le> s"
    using m(2) by auto
  show ?thesis
    unfolding fsub_zero [OF m(1)] using s by (simp add: GRID_LINES_def)
qed

lemma grid_value_returns:
  assumes m: "round_double m = Fin m" "0 < m" "m \<le> 2 powi j"
    and j: "- 1074 \<le> j" "j \<le> 1020" and i: "i \<le> GRID_LINES"
    and s: "0 \<le> s" "mag_le j s"
  shows "\<exists>v. grid_value (Fin 0) (Fin m) (Fin s) i = Inr (Fin v) \<and> 0 \<le> v \<and> mag_le (j + 1) v"
proof -
  have i5: "i \<le> 5" using i by (simp add: GRID_LINES_def)
  have fi: "float_of_int (int i) = Inr (Fin (real i))" using i5 by (rule float_of_int_small)
  have "real i * m \<le> 5 * m" using i5 m(2) by simp
  also have "\<dots> \<le> 8 * 2 powi j" using m(2,3) by linarith
  also have "\<dots> = 2 powi (j + 3)" by (simp add: power_int_add)
  finally have "real i * m \<le> 2 powi (j + 3)" .
  moreover have im0: "0 \<le> real i * m" using m(2) by simp
  ultimately have "mag_le (j + 3) (real i * m)" by (intro mag_of_nonneg)
  moreover have "- 1074 \<le> j + 3" "j + 3 \<le> 1023" using j by simp_all
  ultimately obtain p where p: "round_double (real i * m) = Fin p" "mag_le (j + 3) p" "0 \<le> p"
    using mag_round [of "j + 3" "real i * m"] im0 by auto
  have "p / 5 \<le> 2 powi (j + 3) / 5" using p(2,3) by (simp add: mag_le_def)
  also have "\<dots> \<le> 2 powi (j + 1)" by (simp add: power_int_add)
  finally have "p / 5 \<le> 2 powi (j + 1)" .
  moreover have p0: "0 \<le> p / 5" using p(3) by simp
  ultimately have "mag_le (j + 1) (p / 5)" by (intro mag_of_nonneg)
  moreover have j1: "- 1074 \<le> j + 1" "j + 1 \<le> 1023" using j by simp_all
  ultimately obtain q where q: "round_double (p / 5) = Fin q" "mag_le (j + 1) q" "0 \<le> q"
    using mag_round [of "j + 1" "p / 5"] p0 by auto
  from mag_round [OF q(2) j1] q(3) obtain y where
    y: "round_double q = Fin y" "mag_le (j + 1) y" "0 \<le> y" by auto
  have gq: "fdiv (fmul (Fin (real i)) (fsub (Fin m) (Fin 0))) (Fin (real GRID_LINES)) = Inr (Fin q)"
    unfolding fsub_zero [OF m(1)] by (simp add: p q GRID_LINES_def)
  have gy: "fadd (Fin 0) (Fin q) = Fin y" by (simp add: y)
  show ?thesis
  proof (cases "i = GRID_LINES")
    case False
    then show ?thesis
      unfolding grid_value_def fi and_then_def using gq gy y by simp
  next
    case True
    have "mag_le j (s / 2)" using s by (simp add: mag_le_def)
    moreover have "- 1074 \<le> j" "j \<le> 1023" using j by simp_all
    ultimately obtain h where h: "round_double (s / 2) = Fin h" "mag_le j h" "0 \<le> h"
      using mag_round [of j "s / 2"] s(1) by auto
    have hj: "h \<le> 2 powi (j + 1)"
    proof -
      have "(2::real) powi j \<le> 2 powi (j + 1)" by (intro power_int_increasing) simp_all
      then show ?thesis using h(2,3) by (simp add: mag_le_def)
    qed
    have "\<bar>y - h\<bar> \<le> 2 powi (j + 1)"
      using y(2,3) h(3) hj by (simp add: mag_le_def abs_le_iff)
    then have "mag_le (j + 1) (y - h)" by (simp add: mag_le_def)
    from mag_round [OF this j1] obtain z where z: "round_double (y - h) = Fin z" "mag_le (j + 1) z"
      by auto
    have half: "fdiv (Fin s) (Fin 2) = Inr (Fin h)" by (simp add: h)
    have sub: "fsub (Fin y) (Fin h) = Fin z" by (simp add: fsub_def z)
    have mx: "fmax2 (Fin 0) (Fin z) = Fin (if 0 < z then z else 0)"
      by (simp add: fmax2_def)
    have "0 \<le> (if 0 < z then z else 0)" by simp
    moreover have "mag_le (j + 1) (if 0 < z then z else 0)"
      using z(2) by (auto simp: mag_le_def)
    ultimately show ?thesis
      unfolding grid_value_def fi and_then_def using True gq gy half sub mx by simp
  qed
qed

section \<open>Evaluation on concrete inputs\<close>

text \<open>
  Rounding a number between \<open>2 ^ (52 - k)\<close> and \<open>2 ^ (53 - k)\<close>, for the exponents that
  the examples need.
\<close>

lemmas round_eval = round_double_zero round_double_minus round_even_def
  round_double_up [where k = 40] round_double_up [where k = 41] round_double_up [where k = 42]
  round_double_up [where k = 43] round_double_up [where k = 44] round_double_up [where k = 45]
  round_double_up [where k = 46] round_double_up [where k = 47] round_double_up [where k = 48]
  round_double_up [where k = 49] round_double_up [where k = 50] round_double_up [where k = 51]
  round_double_up [where k = 52] round_double_up [where k = 53] round_double_up [where k = 54]
  round_double_up [where k = 55] round_double_up [where k = 56] round_double_up [where k = 57]
  round_double_up [where k = 58] round_double_up [where k = 59] round_double_up [where k = 60]
  round_double_up [where k = 61] round_double_up [where k = 62]

lemmas float_eval = try_float_def py_float_def strip_def is_space_def scan_decimal_def
  scan_exponent_def is_digit_def digit_val_def lower_def round_eval

lemmas parse_eval = parse_response_def parse_response_dict_def cut_checksum_def strip_def
  is_space_def match_token_def is_digit_def is_alpha_def is_valchar_def

lemmas cell_cycle_eval = init_def truthy_def new_channel_def new_deque_def MAX_POINTS_def
  log_header_def start_polling_thread_def alive_def poll_iteration_def timestamp_ms_def
  py_int_def poll_cycle_cell_def send_request_def read_all_response_def
  parse_response_dict_def with_lock_def append_sample_def deque_append_def cell_value_def
  log_cycle_cellmode_def cell_row_def

section \<open>The registry keeps its invariants\<close>

lemma deque_append_length:
  "length (items d) \<le> maxlen d \<Longrightarrow> length (items (deque_append d x)) \<le> maxlen d"
  by (simp add: deque_append_def Let_def)

lemma deque_append_maxlen: "maxlen (deque_append d x) = maxlen d"
  by (simp add: deque_append_def Let_def)

lemma within_capacity_new: "within_capacity (new_channel MAX_POINTS a)"
  by (simp add: within_capacity_def new_channel_def new_deque_def)

lemma within_capacity_append:
  "within_capacity ch \<Longrightarrow> within_capacity (append_sample ch ts v)"
  by (simp add: within_capacity_def append_sample_def deque_append_def Let_def)

lemma within_capacity_clear: "within_capacity ch \<Longrightarrow> within_capacity (clear_channel ch)"
  by (simp add: within_capacity_def clear_channel_def deque_clear_def)

lemma aligned_new: "aligned (new_channel cap a)"
  by (simp add: aligned_def new_channel_def new_deque_def)

lemma aligned_append: "aligned ch \<Longrightarrow> aligned (append_sample ch ts v)"
  by (auto simp: aligned_def append_sample_def deque_append_def Let_def map_tl)

lemma aligned_clear: "aligned ch \<Longrightarrow> aligned (clear_channel ch)"
  by (simp add: aligned_def clear_channel_def deque_clear_def)


lemma every_channelI:
  "(\<And>name ch. (name, ch) \<in> set (channels st) \<Longrightarrow> P ch) \<Longrightarrow> every_channel P st"
  by (auto simp: every_channel_def list_all_iff)

lemma every_channelD:
  "every_channel P st \<Longrightarrow> (name, ch) \<in> set (channels st) \<Longrightarrow> P ch"
  by (auto simp: every_channel_def list_all_iff)

lemma every_channel_cong:
  "channels st' = channels st \<Longrightarrow> every_channel P st' = every_channel P st"
  by (simp add: every_channel_def)

lemma od_set_subset: "set (od_set k v l) \<subseteq> insert (k, v) (set l)"
  by (induction l) auto

lemma list_all_od_set:
  "list_all Q l \<Longrightarrow> Q (k, v) \<Longrightarrow> list_all Q (od_set k v l)"
  using od_set_subset [of k v l] by (auto simp: list_all_iff)

lemma every_channel_od_set:
  "every_channel P st \<Longrightarrow> P c \<Longrightarrow> every_channel P (st\<lparr>channels := od_set k c (channels st)\<rparr>)"
  by (simp add: every_channel_def list_all_od_set)

lemma every_channel_lookup:
  "every_channel P st \<Longrightarrow> map_of (channels st) k = Some c \<Longrightarrow> P c"
  by (auto simp: every_channel_def list_all_iff dest: map_of_SomeD)

lemma append_cells_every:
  assumes step: "\<And>c ts v. P c \<Longrightarrow> P (append_sample c ts v)"
  shows "every_channel P st \<Longrightarrow> every_channel P (state_of (append_cells ts d cl st))"
proof (induction cl arbitrary: st)
  case Nil
  then show ?case by simp
next
  case (Cons p cl)
  obtain name a where p: "p = (name, a)" by (cases p)
  show ?case
  proof (cases "map_of (channels st) name")
    case None
    then show ?thesis using Cons.prems p by simp
  next
    case (Some c)
    have "P (append_sample c ts (cell_value d a))"
      using step every_channel_lookup [OF Cons.prems Some] by blast
    then have "every_channel P (st\<lparr>channels := od_set name (append_sample c ts (cell_value d a)) (channels st)\<rparr>)"
      using Cons.prems by (rule every_channel_od_set [rotated])
    then show ?thesis using Cons.IH p Some by simp
  qed
qed

lemma with_lock_every:
  assumes "\<And>s. every_channel P s \<Longrightarrow> every_channel P (state_of (body s))"
  shows "every_channel P st \<Longrightarrow> every_channel P (state_of (with_lock body st))"
proof -
  assume st: "every_channel P st"
  have "every_channel P (st\<lparr>channels_lock := True\<rparr>)"
    using st by (simp add: every_channel_def)
  then have "every_channel P (state_of (body (st\<lparr>channels_lock := True\<rparr>)))"
    by (rule assms)
  then show ?thesis
    using st by (cases "body (st\<lparr>channels_lock := True\<rparr>)") (auto simp: with_lock_def every_channel_def)
qed

lemma add_channel_every:
  assumes "P (new_channel MAX_POINTS a)"
  shows "every_channel P st \<Longrightarrow> every_channel P (state_of (add_channel_if_missing name a st))"
  unfolding add_channel_if_missing_def
  by (rule with_lock_every) (auto simp: every_channel_od_set assms)


lemma append_parsed_every:
  assumes step: "\<And>c ts v. P c \<Longrightarrow> P (append_sample c ts v)"
    and new: "\<And>a. P (new_channel MAX_POINTS a)"
  shows "every_channel P st \<Longrightarrow> every_channel P (state_of (append_parsed ts parsed st))"
proof (induction parsed arbitrary: st)
  case Nil
  then show ?case by simp
next
  case (Cons p parsed)
  obtain a v where p: "p = (a, v)" by (cases p)
  have upd: "every_channel P (state_of (append_parsed ts parsed
               (s\<lparr>channels := od_set nm (append_sample c ts v) (channels s)\<rparr>)))"
    if "every_channel P s" and "map_of (channels s) nm = Some c" for s nm c
  proof -
    have "P (append_sample c ts v)" using step every_channel_lookup [OF that] by blast
    then have "every_channel P (s\<lparr>channels := od_set nm (append_sample c ts v) (channels s)\<rparr>)"
      using that(1) by (rule every_channel_od_set [rotated])
    then show ?thesis by (rule Cons.IH)
  qed
  show ?case
  proof (cases "find_display_name a (channels st)")
    case (Some nm)
    then show ?thesis
      using Cons.prems p upd [OF Cons.prems]
      by (cases "map_of (channels st) nm") auto
  next
    case None
    have added: "every_channel P (state_of (add_channel_if_missing a a st))"
      using Cons.prems new by (rule add_channel_every [rotated])
    show ?thesis
    proof (cases "add_channel_if_missing a a st")
      case (Returns s1)
      then have "every_channel P s1" using added by simp
      then show ?thesis
        using p None Returns upd [of s1]
        by (cases "map_of (channels s1) a") auto
    next
      case (Raises e s1)
      then show ?thesis using p None added by simp
    next
      case (Blocks s1)
      then show ?thesis using p None added by simp
    qed
  qed
qed

lemma poll_cycle_cell_every:
  assumes step: "\<And>c ts v. P c \<Longrightarrow> P (append_sample c ts v)"
  shows "every_channel P st \<Longrightarrow> every_channel P (state_of (poll_cycle_cell ts tr st))"
proof -
  assume st: "every_channel P st"
  define d where "d = parse_response_dict (read_all_response tr)"
  have st1: "fold (\<lambda>(name, a). send_request tr (CHR ''?'' # a @ [CHR 0x0A])) cl st = st" for cl
    by (induction cl) (auto simp: send_request_def)
  have "every_channel P (state_of (with_lock (append_cells ts d (cell_list st)) st))"
  proof (rule with_lock_every [rotated])
    show "every_channel P (state_of (append_cells ts d (cell_list st) s))" if "every_channel P s" for s
      using append_cells_every [where P = P] step that by blast
  qed (rule st)
  then show ?thesis
    unfolding poll_cycle_cell_def Let_def st1 d_def [symmetric]
    by (cases "with_lock (append_cells ts d (cell_list st)) st")
       (auto simp: log_cycle_cellmode_def every_channel_def split: option.splits)
qed

lemma poll_cycle_query_every:
  assumes step: "\<And>c ts v. P c \<Longrightarrow> P (append_sample c ts v)"
    and new: "\<And>a. P (new_channel MAX_POINTS a)"
  shows "every_channel P st \<Longrightarrow> every_channel P (state_of (poll_cycle_query ts tr st))"
proof -
  assume st: "every_channel P st"
  define parsed where "parsed = parse_response (read_all_response tr)"
  have "every_channel P (state_of (with_lock (append_parsed ts parsed) st))"
  proof (rule with_lock_every [rotated])
    show "every_channel P (state_of (append_parsed ts parsed s))" if "every_channel P s" for s
      using append_parsed_every [where P = P] step new that by blast
  qed (rule st)
  then show ?thesis
    unfolding poll_cycle_query_def Let_def send_request_def parsed_def [symmetric]
    using st
    by (cases "with_lock (append_parsed ts parsed) st")
       (auto simp: log_cycle_querymode_def every_channel_def split: option.splits)
qed

lemma poll_iteration_every:
  assumes step: "\<And>c ts v. P c \<Longrightarrow> P (append_sample c ts v)"
    and new: "\<And>a. P (new_channel MAX_POINTS a)"
  shows "every_channel P st \<Longrightarrow> every_channel P (state_of (poll_iteration now tr st))"
proof -
  assume st: "every_channel P st"
  have q: "every_channel P (state_of (poll_cycle_query ts tr st))" for ts
    using poll_cycle_query_every [where P = P] step new st by blast
  have c: "every_channel P (state_of (poll_cycle_cell ts tr st))" for ts
    using poll_cycle_cell_every [where P = P] step st by blast
  show ?thesis
  proof (cases "start_time st")
    case None
    then show ?thesis using st by (simp add: poll_iteration_def every_channel_def)
  next
    case (Some t0)
    show ?thesis
      using st q [of "timestamp_ms now t0 (pause_accum st)"] c [of "timestamp_ms now t0 (pause_accum st)"] Some
      by (cases "poll_cycle_query (timestamp_ms now t0 (pause_accum st)) tr st";
          cases "poll_cycle_cell (timestamp_ms now t0 (pause_accum st)) tr st")
         (auto simp: poll_iteration_def every_channel_def)
  qed
qed

lemma restart_every:
  assumes clear: "\<And>c. P c \<Longrightarrow> P (clear_channel c)"
  shows "every_channel P st \<Longrightarrow> every_channel P (state_of (restart_polling now st))"
proof -
  assume st: "every_channel P st"
  have "list_all (\<lambda>(name, ch). P ch) (map (\<lambda>(name, ch). (name, clear_channel ch)) (channels st))"
    using st clear by (auto simp: every_channel_def list_all_iff)
  then show ?thesis
    using st by (auto simp: restart_polling_def with_lock_def Let_def every_channel_def)
qed

lemma init_every:
  assumes new: "\<And>a. P (new_channel MAX_POINTS a)"
  shows "every_channel P (init a)"
proof -
  have "list_all (\<lambda>(name, ch). P ch) l \<Longrightarrow>
        list_all (\<lambda>(name, ch). P ch)
          (fold (\<lambda>(name, ad) chs. od_set name (new_channel MAX_POINTS ad) chs) cl l)"
    for cl :: "(string \<times> string) list" and l
    by (induction cl arbitrary: l) (auto simp: list_all_od_set new)
  from this [of "[]"] show ?thesis
    by (simp add: init_def Let_def every_channel_def)
qed


lemma assign_color_channels: "channels (snd (assign_color name st)) = channels st"
  by (simp add: assign_color_def Let_def split: option.splits)

lemma grid_loop_channels:
  "channels (obj (state_of (grid_loop fn left ytop right ybot y_max step color ls fr)))
     = channels (obj fr)"
proof (induction ls arbitrary: fr)
  case Nil
  then show ?case by simp
next
  case (Cons i ls)
  show ?case
    by (simp add: Cons.IH Let_def split: sum.splits prod.splits)
qed

lemma draw_channel_channels:
  "channels (obj (state_of (draw_channel fn left ytop right ybot x_min x_max nc fr)))
     = channels (obj fr)"
  using assign_color_channels [of "fst nc" "obj fr"]
  by (auto simp: draw_channel_def Let_def grid_loop_channels split: sum.splits prod.splits)

lemma draw_channels_channels:
  "channels (obj (state_of (draw_channels fn left ytop right ybot x_min x_max chs fr)))
     = channels (obj fr)"
proof (induction chs arbitrary: fr)
  case Nil
  then show ?case by simp
next
  case (Cons nc chs)
  show ?case
    using draw_channel_channels [of fn left ytop right ybot x_min x_max nc fr]
    by (cases "draw_channel fn left ytop right ybot x_min x_max nc fr") (simp_all add: Cons.IH)
qed

lemma legend_entry_channels: "channels (obj (legend_entry fn y nc fr)) = channels (obj fr)"
  using assign_color_channels [of "fst nc" "obj fr"]
  by (cases "assign_color (fst nc) (obj fr)") (simp add: legend_entry_def Let_def)

lemma draw_legend_channels: "channels (obj (draw_legend fn y chs fr)) = channels (obj fr)"
  unfolding draw_legend_def
  by (induction chs arbitrary: fr) (simp_all add: legend_entry_channels)

lemma render_locked_channels:
  "channels (obj (state_of (render_locked fn left ytop right ybot fr))) = channels (obj fr)"
proof (cases "concat (map (\<lambda>(name, ch). items (xs ch)) (channels (obj fr)))")
  case Nil
  show ?thesis unfolding render_locked_def Nil by simp
next
  case (Cons v l)
  define x_min where "x_min = fold min l v"
  define x_max where "x_max = (if x_min = fold max l v then x_min + 1 else fold max l v)"
  show ?thesis
    using draw_channels_channels [of fn left ytop right ybot x_min x_max "channels (obj fr)" fr]
    unfolding render_locked_def Cons x_min_def x_max_def
    by (cases "draw_channels fn left ytop right ybot (fold min l v)
                 (if fold min l v = fold max l v then fold min l v + 1 else fold max l v)
                 (channels (obj fr)) fr")
       (simp_all add: Let_def draw_legend_channels split: sum.splits prod.splits)
qed

lemma update_canvas_channels:
  "channels (snd (state_of (update_canvas fn w h st))) = channels st"
proof -
  define fr where "fr = \<lparr>drawn = [Rectangle 70 20 (w - 20) (h - 70)], placed_label_rects = [],
                          legend_x = 70, obj = st\<lparr>channels_lock := True\<rparr>\<rparr>"
  have "channels (obj (state_of (render_locked fn 70 20 (w - 20) (h - 70) fr))) = channels st"
    by (simp add: render_locked_channels fr_def)
  then show ?thesis
    unfolding update_canvas_def Let_def
    by (cases "render_locked fn 70 20 (w - 20) (h - 70) fr") (auto simp: fr_def)
qed

lemma reachable_every:
  assumes new: "\<And>a. P (new_channel MAX_POINTS a)"
    and step: "\<And>c ts v. P c \<Longrightarrow> P (append_sample c ts v)"
    and clear: "\<And>c. P c \<Longrightarrow> P (clear_channel c)"
  shows "reachable st \<Longrightarrow> every_channel P st"
proof (induction st rule: reachable.induct)
  case (r_init a)
  show ?case using init_every [where P = P] new by blast
next
  case (r_start st now)
  then show ?case by (simp add: start_polling_thread_def every_channel_def Let_def)
next
  case (r_pause st now)
  then show ?case by (simp add: pause_polling_def every_channel_def)
next
  case (r_resume st now)
  then show ?case
    by (simp add: resume_polling_def start_polling_thread_def every_channel_def Let_def)
next
  case (r_restart st now)
  then show ?case using restart_every [where P = P] clear by blast
next
  case (r_poll st now tr)
  then show ?case using poll_iteration_every [where P = P] step new by blast
next
  case (r_render st fn w h)
  then show ?case by (simp add: every_channel_def update_canvas_channels)
qed


section \<open>The sample buffers\<close>

text \<open>
  Claim C1. In every state the poller can reach, every deque of every channel has the
  bound \<open>MAX_POINTS\<close> and holds at most that many items. An append to a deque within its
  bound leaves it within its bound: below the bound the item is added at the end, at
  the bound the oldest item is dropped and the new one added at the end. Scenario B:
  a channel with deques of bound 3 that receives the values 1, 2, 3, 4 at the
  timestamps 0, 1, 2, 3 then holds the pairs (1, 2), (2, 3), (3, 4).
\<close>

theorem C1_ring_buffer:
  "(reachable st \<longrightarrow> every_channel within_capacity st)
   \<and> (length (items d) \<le> maxlen d \<longrightarrow>
        length (items (deque_append d x)) \<le> maxlen d \<and> maxlen (deque_append d x) = maxlen d)
   \<and> (length (items d) < maxlen d \<longrightarrow> items (deque_append d x) = items d @ [x])
   \<and> (length (items d) = maxlen d \<and> 0 < maxlen d \<longrightarrow>
        items (deque_append d x) = tl (items d) @ [x])
   \<and> (let ch = fold (\<lambda>(t, v) c. append_sample c t v)
                  [(0, ''1''), (1, ''2''), (2, ''3''), (3, ''4'')] (new_channel 3 a)
        in zip (items (xs ch)) (items (vals ch)) = [(1, Fin 2), (2, Fin 3), (3, Fin 4)])"
proof -
  have "reachable st \<longrightarrow> every_channel within_capacity st"
    using reachable_every [where P = within_capacity]
      within_capacity_new within_capacity_append within_capacity_clear
    by blast
  moreover have "length (items d) = maxlen d \<and> 0 < maxlen d \<longrightarrow>
      items (deque_append d x) = tl (items d) @ [x]"
    by (cases "items d") (auto simp: deque_append_def Let_def)
  moreover have "let ch = fold (\<lambda>(t, v) c. append_sample c t v)
                  [(0, ''1''), (1, ''2''), (2, ''3''), (3, ''4'')] (new_channel 3 a)
        in zip (items (xs ch)) (items (vals ch)) = [(1, Fin 2), (2, Fin 3), (3, Fin 4)]"
    by (simp add: append_sample_def new_channel_def new_deque_def deque_append_def float_eval)
  ultimately show ?thesis
    by (simp add: deque_append_length deque_append_maxlen) (simp add: deque_append_def)
qed

text \<open>
  The theorem at a state reached by one cycle of the poll loop, and at a deque of bound
  3 holding two items and three items.
\<close>

theorem C1_ring_buffer_witness:
  "every_channel within_capacity
     (state_of (poll_iteration 5 \<lparr>write_fails = False, incoming = Some ''$10:-123$20:45,CRC''\<rparr>
        (start_polling_thread 3
          (init \<lparr>arg_request_str = None, arg_cells = [''V1:10'', ''20''], arg_file = None\<rparr>))))
   \<and> items (deque_append \<lparr>maxlen = 3, items = [1, 2 :: int]\<rparr> 3) = [1, 2, 3]
   \<and> items (deque_append \<lparr>maxlen = 3, items = [1, 2, 3 :: int]\<rparr> 4) = [2, 3, 4]
   \<and> length (items (deque_append \<lparr>maxlen = 3, items = [1, 2, 3 :: int]\<rparr> 4)) \<le> 3"
proof -
  let ?a = "\<lparr>arg_request_str = None, arg_cells = [''V1:10'', ''20''], arg_file = None\<rparr>"
  let ?tr = "\<lparr>write_fails = False, incoming = Some ''$10:-123$20:45,CRC''\<rparr>"
  have "reachable (state_of (poll_iteration 5 ?tr (start_polling_thread 3 (init ?a))))"
    by (intro reachable.intros) (simp_all add: alive_def start_polling_thread_def init_def Let_def)
  then show ?thesis
    using C1_ring_buffer [of "state_of (poll_iteration 5 ?tr (start_polling_thread 3 (init ?a)))"
        "\<lparr>maxlen = 3, items = [1, 2 :: int]\<rparr>" 3 "''a''"]
      C1_ring_buffer [of "init ?a" "\<lparr>maxlen = 3, items = [1, 2, 3 :: int]\<rparr>" 4 "''a''"]
    by simp
qed

text \<open>
  Claim C10. In every state the poller can reach, the three sequences \<open>xs\<close>, \<open>ys\<close> and
  \<open>vals\<close> of every channel have one length, and each item of \<open>ys\<close> is the absolute
  value of the item of \<open>vals\<close> at its index.
\<close>

theorem C10_parallel_sequences:
  "reachable st \<Longrightarrow> (name, ch) \<in> set (channels st) \<Longrightarrow>
     length (items (xs ch)) = length (items (ys ch))
     \<and> length (items (ys ch)) = length (items (vals ch))
     \<and> (\<forall>i < length (items (vals ch)). items (ys ch) ! i = fabs (items (vals ch) ! i))"
proof -
  assume "reachable st" and "(name, ch) \<in> set (channels st)"
  then have "aligned ch"
    using reachable_every [where P = aligned] aligned_new aligned_append aligned_clear
      every_channelD
    by blast
  then show ?thesis by (simp add: aligned_def)
qed

text \<open>
  The theorem at the state after one cycle in which the device answers \<open>-123\<close> for the
  channel \<open>V1\<close>.
\<close>

theorem C10_parallel_sequences_witness:
  "(let st = state_of (poll_iteration 5 \<lparr>write_fails = False, incoming = Some ''$10:-123$20:45,CRC''\<rparr>
        (start_polling_thread 3
          (init \<lparr>arg_request_str = None, arg_cells = [''V1:10'', ''20''], arg_file = None\<rparr>)));
        ch = \<lparr>addr = ''10'', xs = \<lparr>maxlen = 2000, items = [2000]\<rparr>,
               ys = \<lparr>maxlen = 2000, items = [Fin 123]\<rparr>,
               vals = \<lparr>maxlen = 2000, items = [Fin (- 123)]\<rparr>\<rparr>
    in (''V1'', ch) \<in> set (channels st)
       \<and> length (items (xs ch)) = length (items (vals ch))
       \<and> items (ys ch) ! 0 = fabs (items (vals ch) ! 0))"
proof -
  let ?a = "\<lparr>arg_request_str = None, arg_cells = [''V1:10'', ''20''], arg_file = None\<rparr>"
  let ?tr = "\<lparr>write_fails = False, incoming = Some ''$10:-123$20:45,CRC''\<rparr>"
  let ?st = "state_of (poll_iteration 5 ?tr (start_polling_thread 3 (init ?a)))"
  let ?ch = "\<lparr>addr = ''10'', xs = \<lparr>maxlen = 2000, items = [2000]\<rparr>,
               ys = \<lparr>maxlen = 2000, items = [Fin 123]\<rparr>,
               vals = \<lparr>maxlen = 2000, items = [Fin (- 123)]\<rparr>\<rparr>"
  have r: "reachable ?st"
    by (intro reachable.intros) (simp_all add: alive_def start_polling_thread_def init_def Let_def)
  have p: "parse_response ''$10:-123$20:45,CRC'' = [(''10'', ''-123''), (''20'', ''45'')]"
    by (simp add: parse_eval)
  have m: "(''V1'', ?ch) \<in> set (channels ?st)"
    by (simp add: cell_cycle_eval p float_eval)
  show ?thesis
    using C10_parallel_sequences [OF r m] m by (simp add: Let_def)
qed

section \<open>Pause and resume\<close>

text \<open>
  Claim C7. Pausing a second time changes nothing: the state after two pauses is the
  state after the first, so a resume accumulates the same duration after either. A
  resume while not paused leaves the state as it is when the thread lives; when no
  thread lives it is \<open>start_polling_thread\<close>, which starts the thread. In both cases
  \<open>paused\<close>, \<open>pause_start\<close> and the channels stay as they are, and so do \<open>start_time\<close>
  and \<open>pause_accum\<close> once the clock has been started (which \<open>start_polling_thread\<close>
  does when it finds no start time: the loop this resume starts is then the first).
\<close>

theorem C7_pause_resume_idempotent:
  "pause_polling t2 (pause_polling t1 st) = pause_polling t1 st
   \<and> resume_polling t3 (pause_polling t2 (pause_polling t1 st)) = resume_polling t3 (pause_polling t1 st)
   \<and> (\<not> paused st \<longrightarrow>
        (alive st \<longrightarrow> resume_polling t st = st)
        \<and> (\<not> alive st \<longrightarrow> resume_polling t st = start_polling_thread t st \<and> alive (resume_polling t st))
        \<and> paused (resume_polling t st) = paused st
        \<and> pause_start (resume_polling t st) = pause_start st
        \<and> channels (resume_polling t st) = channels st
        \<and> (start_time st \<noteq> None \<longrightarrow>
             start_time (resume_polling t st) = start_time st
             \<and> pause_accum (resume_polling t st) = pause_accum st))"
  by (auto simp: pause_polling_def resume_polling_def start_polling_thread_def alive_def Let_def)

text \<open>
  The theorem at a running poller, paused at 5 and again at 7 and resumed at 9 (four
  seconds are accumulated, not two), and at the same poller after its thread has died.
\<close>

theorem C7_pause_resume_idempotent_witness:
  "(let st = start_polling_thread 3
               (init \<lparr>arg_request_str = None, arg_cells = [''V1:10''], arg_file = None\<rparr>)
    in pause_polling 7 (pause_polling 5 st) = pause_polling 5 st
       \<and> pause_accum (resume_polling 9 (pause_polling 7 (pause_polling 5 st))) = 4
       \<and> \<not> paused st \<and> alive st \<and> resume_polling 9 st = st
       \<and> \<not> alive (st\<lparr>poll_thread := Some False\<rparr>)
       \<and> resume_polling 9 (st\<lparr>poll_thread := Some False\<rparr>) = st
       \<and> pause_accum (resume_polling 9 (st\<lparr>poll_thread := Some False\<rparr>)) = 0
       \<and> start_time (resume_polling 9 (st\<lparr>poll_thread := Some False\<rparr>)) = Some 3)"
proof -
  define st where "st = start_polling_thread 3
               (init \<lparr>arg_request_str = None, arg_cells = [''V1:10''], arg_file = None\<rparr>)"
  define dead where "dead = st\<lparr>poll_thread := Some False\<rparr>"
  have a: "\<not> paused st" "alive st" "start_time st = Some 3" "stop_event st = False"
     "poll_thread st = Some True" "pause_accum st = 0"
    by (simp_all add: st_def start_polling_thread_def alive_def init_def Let_def)
  have b: "\<not> paused dead" "\<not> alive dead" "start_time dead \<noteq> None" "pause_accum dead = 0"
     "start_time dead = Some 3"
    using a by (simp_all add: alive_def dead_def)
  have c: "pause_accum (resume_polling 9 (pause_polling 5 st)) = 4"
    using a by (simp add: resume_polling_def pause_polling_def Let_def)
  have d: "start_polling_thread 9 dead = st"
    using a b by (simp add: start_polling_thread_def Let_def dead_def)
  have 1: "pause_polling 7 (pause_polling 5 st) = pause_polling 5 st"
    and 2: "resume_polling 9 (pause_polling 7 (pause_polling 5 st)) = resume_polling 9 (pause_polling 5 st)"
    and 3: "resume_polling 9 st = st"
    using C7_pause_resume_idempotent [of 7 5 st 9 9] a by simp_all
  have 4: "resume_polling 9 dead = st"
    and 5: "pause_accum (resume_polling 9 dead) = 0"
    and 6: "start_time (resume_polling 9 dead) = Some 3"
    using C7_pause_resume_idempotent [of 7 5 dead 9 9] a b d by simp_all
  show ?thesis
    unfolding Let_def st_def [symmetric] dead_def [symmetric]
    using a b c 1 2 3 4 5 6 by simp
qed

section \<open>Restart\<close>

text \<open>
  Claim C6, as the code has it. A restart that finds the lock free returns; it empties
  the three deques of every channel and keeps the channels registered; it sets
  \<open>start_time\<close> to the current time, \<open>pause_accum\<close> to zero, \<open>pause_start\<close> to \<open>None\<close> and
  \<open>paused\<close> to false, so that the timestamp at the moment of the restart is 0; and it
  starts a thread. The colour table and the palette cursor are not touched: after the
  restart every name gets the colour it would have got before.
\<close>

theorem C6_restart_keeps_colors:
  "\<not> channels_lock st \<Longrightarrow>
     (let st' = state_of (restart_polling now st)
      in restart_polling now st = Returns st'
         \<and> channels st' = map (\<lambda>(name, ch). (name, clear_channel ch)) (channels st)
         \<and> (\<forall>(name, ch) \<in> set (channels st').
               items (xs ch) = [] \<and> items (ys ch) = [] \<and> items (vals ch) = [])
         \<and> start_time st' = Some now \<and> pause_accum st' = 0
         \<and> pause_start st' = None \<and> \<not> paused st'
         \<and> timestamp_ms now now (pause_accum st') = 0
         \<and> alive st' \<and> \<not> stop_event st' \<and> \<not> channels_lock st'
         \<and> colors st' = colors st \<and> next_color st' = next_color st
         \<and> fst (assign_color name st') = fst (assign_color name st))"
  by (auto simp: restart_polling_def with_lock_def Let_def alive_def timestamp_ms_def py_int_def
      assign_color_def clear_channel_def deque_clear_def split: option.splits)

text \<open>
  The theorem at a poller with the channels \<open>A\<close> and \<open>B\<close>, both coloured, restarted at
  time 9.
\<close>

theorem C6_restart_keeps_colors_witness:
  "(let st = snd (assign_color ''B'' (snd (assign_color ''A''
               (start_polling_thread 3
                 (init \<lparr>arg_request_str = None, arg_cells = [''A:1'', ''B:2''], arg_file = None\<rparr>)))));
        st' = state_of (restart_polling 9 st)
    in \<not> channels_lock st
       \<and> restart_polling 9 st = Returns st'
       \<and> start_time st' = Some 9 \<and> pause_accum st' = 0
       \<and> colors st' = [(''A'', ''#e6194b''), (''B'', ''#3cb44b'')]
       \<and> fst (assign_color ''B'' st') = fst (assign_color ''B'' st))"
proof -
  define st where "st = snd (assign_color ''B'' (snd (assign_color ''A''
               (start_polling_thread 3
                 (init \<lparr>arg_request_str = None, arg_cells = [''A:1'', ''B:2''], arg_file = None\<rparr>)))))"
  have a: "\<not> channels_lock st" "colors st = [(''A'', ''#e6194b''), (''B'', ''#3cb44b'')]"
    by (simp_all add: st_def assign_color_def start_polling_thread_def alive_def init_def Let_def
        color_cycle_def)
  show ?thesis
    unfolding st_def [symmetric]
    using C6_restart_keeps_colors [of st 9 "''B''"] a by (simp add: Let_def)
qed

text \<open>
  Where the claim fails: it has the colours assigned from scratch after a restart. Here
  \<open>A\<close> and then \<open>B\<close> are coloured before the restart, and \<open>B\<close> is the first channel
  coloured after it: \<open>B\<close> gets its old colour, the second of the palette, not the first.
\<close>

theorem C6_restart_colors_counterexample:
  "(let st0 = start_polling_thread 3
                (init \<lparr>arg_request_str = None, arg_cells = [''A:1'', ''B:2''], arg_file = None\<rparr>);
        (cA, st1) = assign_color ''A'' st0;
        (cB, st2) = assign_color ''B'' st1;
        st3 = state_of (restart_polling 9 st2);
        (cB', st4) = assign_color ''B'' st3
    in cA = color_cycle ! 0 \<and> cB = color_cycle ! 1 \<and> cB' = color_cycle ! 1
       \<and> cB' \<noteq> color_cycle ! 0 \<and> next_color st3 = 2
       \<and> colors st3 = [(''A'', ''#e6194b''), (''B'', ''#3cb44b'')])"
  by (simp add: assign_color_def start_polling_thread_def alive_def init_def Let_def
      color_cycle_def restart_polling_def with_lock_def)

section \<open>Custom-request mode\<close>

text \<open>
  Claim C8. \<open>parse_response\<close> turns \<^verbatim>\<open>$10:123$20:45,CRC\<close> into the pairs
  \<open>(10, 123)\<close>, \<open>(20, 45)\<close>, and \<open>log_cycle_querymode\<close> would write for them the
  timestamp followed by \<^verbatim>\<open>, 123, 45\<close>. But the cycle that reads this response does not
  come to write it. In custom-request mode no channel is registered at the start, so
  the loop of lines 371 to 384, which holds \<open>channels_lock\<close>, calls
  \<open>add_channel_if_missing\<close> for the address 10, and that method asks for the lock
  again: the poll thread blocks with the log as it was.
\<close>

theorem C8_query_cycle_blocks:
  "parse_response ''$10:123$20:45,CRC'' = [(''10'', ''123''), (''20'', ''45'')]
   \<and> query_row ts [(''10'', ''123''), (''20'', ''45'')] = str_int ts @ '', 123, 45'' @ [CHR 0x0A]
   \<and> (truthy (request_str st) \<and> channels st = [] \<and> \<not> channels_lock st
        \<and> \<not> stop_event st \<and> \<not> paused st \<and> start_time st = Some t0 \<longrightarrow>
        poll_iteration now \<lparr>write_fails = wfail, incoming = Some ''$10:123$20:45,CRC''\<rparr> st
          = Blocks (st\<lparr>channels_lock := True\<rparr>))"
proof -
  have p: "parse_response ''$10:123$20:45,CRC'' = [(''10'', ''123''), (''20'', ''45'')]"
    by (simp add: parse_eval)
  have q: "query_row ts [(''10'', ''123''), (''20'', ''45'')] = str_int ts @ '', 123, 45'' @ [CHR 0x0A]"
    by (simp add: query_row_def)
  show ?thesis
    by (simp add: p q poll_iteration_def poll_cycle_query_def read_all_response_def
        send_request_def with_lock_def add_channel_if_missing_def Let_def)
qed

text \<open>
  The theorem at a new poller in custom-request mode with a log file, in its first
  cycle: the outcome is \<open>Blocks\<close>, and the log holds the header only.
\<close>

theorem C8_query_cycle_blocks_witness:
  "(let st = start_polling_thread 3
               (init \<lparr>arg_request_str = Some ''?ALL'', arg_cells = [], arg_file = Some False\<rparr>)
    in truthy (request_str st) \<and> channels st = [] \<and> \<not> channels_lock st
       \<and> \<not> stop_event st \<and> \<not> paused st \<and> start_time st = Some 3
       \<and> poll_iteration 5 \<lparr>write_fails = False, incoming = Some ''$10:123$20:45,CRC''\<rparr> st
           = Blocks (st\<lparr>channels_lock := True\<rparr>)
       \<and> log_file st = Some [''Time_ms, Values'' @ [CHR 0x0A]]
       \<and> query_row 1234 [(''10'', ''123''), (''20'', ''45'')] = ''1234, 123, 45'' @ [CHR 0x0A])"
proof -
  define st where "st = start_polling_thread 3
               (init \<lparr>arg_request_str = Some ''?ALL'', arg_cells = [], arg_file = Some False\<rparr>)"
  have a: "truthy (request_str st)" "channels st = []" "\<not> channels_lock st"
     "\<not> stop_event st" "\<not> paused st" "start_time st = Some 3"
     "log_file st = Some [''Time_ms, Values'' @ [CHR 0x0A]]"
    by (simp_all add: st_def start_polling_thread_def alive_def init_def Let_def truthy_def
        log_header_def)
  have s: "str_int 1234 = ''1234''"
    by (simp add: str_int_def str_nat.simps digit_char_def)
  show ?thesis
    unfolding st_def [symmetric]
    using C8_query_cycle_blocks [of 1234 st 3 5 False] a s by (simp add: Let_def)
qed

section \<open>Cell-list mode\<close>

lemma od_set_map_of: "map_of (od_set k v l) = (map_of l)(k \<mapsto> v)"
  by (induction l) (auto simp: fun_eq_iff)

lemma od_set_keys: "fst ` set (od_set k v l) = insert k (fst ` set l)"
  by (induction l) auto

lemma map_of_registered: "k \<in> fst ` set l \<Longrightarrow> \<exists>v. map_of l k = Some v"
  by (cases "map_of l k") (auto simp: map_of_eq_None_iff)

text \<open>
  The loop under the lock, when every listed name is registered and no name is listed
  twice: it returns, it changes nothing but the channels, and the channel of each
  listed name has one sample more.
\<close>

lemma append_cells_returns:
  "fst ` set cl \<subseteq> fst ` set (channels st) \<Longrightarrow> distinct (map fst cl) \<Longrightarrow>
     \<exists>chs. append_cells ts d cl st = Returns (st\<lparr>channels := chs\<rparr>)
       \<and> fst ` set chs = fst ` set (channels st)
       \<and> (\<forall>name. map_of chs name =
             (case map_of cl name of
                None \<Rightarrow> map_of (channels st) name
              | Some a \<Rightarrow> map_option (\<lambda>ch. append_sample ch ts (cell_value d a))
                           (map_of (channels st) name)))"
proof (induction cl arbitrary: st)
  case Nil
  have "append_cells ts d [] st = Returns (st\<lparr>channels := channels st\<rparr>)" by simp
  then show ?case by (intro exI [of _ "channels st"]) simp
next
  case (Cons p cl)
  obtain name a where p: "p = (name, a)" by (cases p)
  from Cons.prems p obtain ch where ch: "map_of (channels st) name = Some ch"
    using map_of_registered [of name "channels st"] by auto
  define st1 where
    "st1 = st\<lparr>channels := od_set name (append_sample ch ts (cell_value d a)) (channels st)\<rparr>"
  have keys1: "fst ` set (channels st1) = fst ` set (channels st)"
    using ch by (auto simp: st1_def od_set_keys dest: map_of_SomeD intro: rev_image_eqI)
  have "fst ` set cl \<subseteq> fst ` set (channels st1)" "distinct (map fst cl)"
    using Cons.prems keys1 by auto
  from Cons.IH [OF this] obtain chs where
    r: "append_cells ts d cl st1 = Returns (st1\<lparr>channels := chs\<rparr>)"
    and k: "fst ` set chs = fst ` set (channels st1)"
    and m: "\<And>n. map_of chs n =
             (case map_of cl n of
                None \<Rightarrow> map_of (channels st1) n
              | Some b \<Rightarrow> map_option (\<lambda>c. append_sample c ts (cell_value d b))
                           (map_of (channels st1) n))"
    by blast
  have fresh: "map_of cl name = None"
    using Cons.prems(2) p by (simp add: map_of_eq_None_iff)
  have "append_cells ts d (p # cl) st = Returns (st\<lparr>channels := chs\<rparr>)"
    using r ch p by (simp add: st1_def)
  moreover have "fst ` set chs = fst ` set (channels st)"
    using k keys1 by simp
  moreover have "map_of chs n =
             (case map_of (p # cl) n of
                None \<Rightarrow> map_of (channels st) n
              | Some b \<Rightarrow> map_option (\<lambda>c. append_sample c ts (cell_value d b))
                           (map_of (channels st) n))" for n
  proof (cases "n = name")
    case True
    then show ?thesis using m [of name] fresh ch p by (simp add: st1_def od_set_map_of)
  next
    case False
    then show ?thesis using m [of n] p
      by (cases "map_of cl n") (simp_all add: st1_def od_set_map_of)
  qed
  ultimately show ?case by blast
qed

lemma send_requests_id:
  "fold (\<lambda>(name, a). send_request tr (CHR ''?'' # a @ [CHR 0x0A])) cl st = st"
  by (induction cl) (auto simp: send_request_def)

lemma poll_cycle_cell_returns:
  assumes free: "\<not> channels_lock st"
    and reg: "fst ` set (cell_list st) \<subseteq> fst ` set (channels st)"
    and dist: "distinct (map fst (cell_list st))"
  shows "\<exists>chs. poll_cycle_cell ts tr st =
           Returns (st\<lparr>channels := chs,
                       log_file := map_option
                         (\<lambda>rows. rows @ [cell_row ts (parse_response_dict (read_all_response tr)) (cell_list st)])
                         (log_file st)\<rparr>)
       \<and> (\<forall>(name, a) \<in> set (cell_list st). \<exists>ch.
             map_of (channels st) name = Some ch
             \<and> map_of chs name =
                 Some (append_sample ch ts
                   (cell_value (parse_response_dict (read_all_response tr)) a)))"
proof -
  define d where "d = parse_response_dict (read_all_response tr)"
  define st0 where "st0 = st\<lparr>channels_lock := True\<rparr>"
  have st0: "channels st0 = channels st" "cell_list st0 = cell_list st" "log_file st0 = log_file st"
    by (simp_all add: st0_def)
  have "fst ` set (cell_list st) \<subseteq> fst ` set (channels st0)"
    using reg by (simp add: st0)
  from append_cells_returns [OF this dist, of ts d] obtain chs where
    r: "append_cells ts d (cell_list st) st0 = Returns (st0\<lparr>channels := chs\<rparr>)"
    and m: "\<And>n. map_of chs n =
             (case map_of (cell_list st) n of
                None \<Rightarrow> map_of (channels st0) n
              | Some b \<Rightarrow> map_option (\<lambda>c. append_sample c ts (cell_value d b))
                           (map_of (channels st0) n))"
    by blast
  have w: "with_lock (append_cells ts d (cell_list st)) st
             = Returns (st0\<lparr>channels := chs, channels_lock := False\<rparr>)"
    unfolding with_lock_def st0_def [symmetric] using free r by simp
  have e: "st0\<lparr>channels := chs, channels_lock := False\<rparr> = st\<lparr>channels := chs\<rparr>"
    using free by (simp add: st0_def)
  have 1: "poll_cycle_cell ts tr st =
           Returns (st\<lparr>channels := chs,
                       log_file := map_option (\<lambda>rows. rows @ [cell_row ts d (cell_list st)])
                         (log_file st)\<rparr>)"
    unfolding poll_cycle_cell_def send_requests_id Let_def d_def [symmetric] w e
    by (cases "log_file st") (simp_all add: log_cycle_cellmode_def)
  have 2: "\<exists>ch. map_of (channels st) name = Some ch
             \<and> map_of chs name = Some (append_sample ch ts (cell_value d a))"
    if "(name, a) \<in> set (cell_list st)" for name a
  proof -
    have c: "map_of (cell_list st) name = Some a"
      using that dist by simp
    have "name \<in> fst ` set (channels st)"
      using that reg by force
    then obtain ch where ch: "map_of (channels st) name = Some ch"
      using map_of_registered by fastforce
    have "map_of chs name = Some (append_sample ch ts (cell_value d a))"
      using m [of name] by (simp add: c ch st0)
    then show ?thesis using ch by blast
  qed
  have 3: "\<forall>(name, a) \<in> set (cell_list st). \<exists>ch.
             map_of (channels st) name = Some ch
             \<and> map_of chs name = Some (append_sample ch ts (cell_value d a))"
    using 2 by blast
  show ?thesis
    unfolding d_def [symmetric] using 1 3 by blast
qed


text \<open>
  Claim C9. In cell-list mode, a cycle of a running poller whose lock is free, whose
  listed names are registered and listed once, always returns, whatever the transport
  did: it changes nothing but the channels and the log, so the thread lives on and the
  next cycle runs. Every listed channel gets the sample of this cycle, and the log gets
  its row. An address that the response does not hold (none is held when reading
  failed) counts as the string \<open>0\<close>: the sample appended is the timestamp with 0.0 for
  the magnitude and for the value, and the row has \<open>0\<close> in that column.
\<close>

theorem C9_cell_cycle_defaults:
  assumes "\<not> truthy (request_str st)" and "\<not> stop_event st" and "\<not> paused st"
    and "start_time st = Some t0" and "\<not> channels_lock st"
    and "fst ` set (cell_list st) \<subseteq> fst ` set (channels st)"
    and "distinct (map fst (cell_list st))"
  shows "\<exists>chs. poll_iteration now tr st =
           Returns (st\<lparr>channels := chs,
                       log_file := map_option
                         (\<lambda>rows. rows @ [cell_row (timestamp_ms now t0 (pause_accum st))
                            (parse_response_dict (read_all_response tr)) (cell_list st)])
                         (log_file st)\<rparr>)
       \<and> (\<forall>(name, a) \<in> set (cell_list st). \<exists>ch.
             map_of (channels st) name = Some ch
             \<and> map_of chs name =
                 Some (append_sample ch (timestamp_ms now t0 (pause_accum st))
                   (cell_value (parse_response_dict (read_all_response tr)) a))
             \<and> (parse_response_dict (read_all_response tr) a = None \<longrightarrow>
                  map_of chs name =
                    Some (ch\<lparr>xs := deque_append (xs ch) (timestamp_ms now t0 (pause_accum st)),
                             ys := deque_append (ys ch) (Fin 0),
                             vals := deque_append (vals ch) (Fin 0)\<rparr>)))
       \<and> (incoming tr = None \<longrightarrow>
             parse_response_dict (read_all_response tr) = Map.empty
             \<and> cell_row (timestamp_ms now t0 (pause_accum st))
                  (parse_response_dict (read_all_response tr)) (cell_list st)
                 = str_int (timestamp_ms now t0 (pause_accum st))
                   @ concat (map (\<lambda>c. '', 0'') (cell_list st)) @ [CHR 0x0A])"
proof -
  define ts where "ts = timestamp_ms now t0 (pause_accum st)"
  define d where "d = parse_response_dict (read_all_response tr)"
  have zero: "try_float ''0'' = Fin 0"
    by (simp add: float_eval)
  from poll_cycle_cell_returns [OF assms(5-7), of ts tr] obtain chs where
    1: "poll_cycle_cell ts tr st =
           Returns (st\<lparr>channels := chs,
                       log_file := map_option (\<lambda>rows. rows @ [cell_row ts d (cell_list st)])
                         (log_file st)\<rparr>)"
    and 2: "\<forall>(name, a) \<in> set (cell_list st). \<exists>ch.
             map_of (channels st) name = Some ch
             \<and> map_of chs name = Some (append_sample ch ts (cell_value d a))"
    unfolding d_def by blast
  have 3: "poll_iteration now tr st =
           Returns (st\<lparr>channels := chs,
                       log_file := map_option (\<lambda>rows. rows @ [cell_row ts d (cell_list st)])
                         (log_file st)\<rparr>)"
    using assms(1-4) 1 by (simp add: poll_iteration_def ts_def)
  have 4: "append_sample ch ts (cell_value d a) =
             ch\<lparr>xs := deque_append (xs ch) ts, ys := deque_append (ys ch) (Fin 0),
                vals := deque_append (vals ch) (Fin 0)\<rparr>" if "d a = None" for ch a
    using that zero by (simp add: append_sample_def cell_value_def)
  have 5: "\<forall>(name, a) \<in> set (cell_list st). \<exists>ch.
             map_of (channels st) name = Some ch
             \<and> map_of chs name = Some (append_sample ch ts (cell_value d a))
             \<and> (d a = None \<longrightarrow>
                  map_of chs name =
                    Some (ch\<lparr>xs := deque_append (xs ch) ts, ys := deque_append (ys ch) (Fin 0),
                             vals := deque_append (vals ch) (Fin 0)\<rparr>))"
    using 2 4 by fastforce
  have 6: "d = Map.empty" if "incoming tr = None"
    using that by (simp add: d_def parse_response_dict_def read_all_response_def parse_response_def)
  have 7: "cell_row ts Map.empty cl = str_int ts @ concat (map (\<lambda>c. '', 0'') cl) @ [CHR 0x0A]"
    for cl
    by (simp add: cell_row_def cell_value_def case_prod_unfold)
  show ?thesis
    unfolding ts_def [symmetric] d_def [symmetric]
    using 3 5 6 7 by (intro exI [of _ chs]) simp
qed


text \<open>
  The theorem at a poller with the channels \<open>V1\<close> (address 10) and \<open>20\<close>, started at
  time 3, in a cycle at time 5 in which writing and reading both fail.
\<close>

theorem C9_cell_cycle_defaults_witness:
  "(let st = start_polling_thread 3
               (init \<lparr>arg_request_str = None, arg_cells = [''V1:10'', ''20''], arg_file = Some False\<rparr>);
        tr = \<lparr>write_fails = True, incoming = None\<rparr>;
        st' = state_of (poll_iteration 5 tr st)
    in \<not> truthy (request_str st) \<and> \<not> stop_event st \<and> \<not> paused st
       \<and> start_time st = Some 3 \<and> \<not> channels_lock st
       \<and> fst ` set (cell_list st) \<subseteq> fst ` set (channels st)
       \<and> distinct (map fst (cell_list st))
       \<and> poll_iteration 5 tr st = Returns st'
       \<and> alive st' \<and> \<not> channels_lock st'
       \<and> log_file st' = Some [''Time_ms, V1, 20'' @ [CHR 0x0A], ''2000, 0, 0'' @ [CHR 0x0A]]
       \<and> map_of (channels st') ''V1'' =
           Some \<lparr>addr = ''10'', xs = \<lparr>maxlen = 2000, items = [2000]\<rparr>,
                  ys = \<lparr>maxlen = 2000, items = [Fin 0]\<rparr>,
                  vals = \<lparr>maxlen = 2000, items = [Fin 0]\<rparr>\<rparr>)"
proof -
  define st where "st = start_polling_thread 3
               (init \<lparr>arg_request_str = None, arg_cells = [''V1:10'', ''20''], arg_file = Some False\<rparr>)"
  define tr where "tr = \<lparr>write_fails = True, incoming = None\<rparr>"
  have cl: "cell_list st = [(''V1'', ''10''), (''20'', ''20'')]"
    by (simp add: st_def start_polling_thread_def alive_def init_def Let_def truthy_def
        strip_def is_space_def)
  have chs: "channels st = [(''V1'', new_channel MAX_POINTS ''10''), (''20'', new_channel MAX_POINTS ''20'')]"
    by (simp add: st_def start_polling_thread_def alive_def init_def Let_def truthy_def
        strip_def is_space_def)
  have h: "\<not> truthy (request_str st)" "\<not> stop_event st" "\<not> paused st"
      "start_time st = Some 3" "\<not> channels_lock st"
      "fst ` set (cell_list st) \<subseteq> fst ` set (channels st)"
      "distinct (map fst (cell_list st))"
    unfolding cl chs
    by (simp_all add: st_def start_polling_thread_def alive_def init_def Let_def truthy_def)
  have f: "alive st" "pause_accum st = 0"
      "log_file st = Some [''Time_ms, V1, 20'' @ [CHR 0x0A]]"
    by (simp_all add: st_def start_polling_thread_def alive_def init_def Let_def truthy_def
        strip_def is_space_def log_header_def)
  have ts: "timestamp_ms 5 3 0 = 2000" "str_int 2000 = ''2000''"
    by (simp_all add: timestamp_ms_def py_int_def str_int_def str_nat.simps digit_char_def)
  have i: "incoming tr = None"
    by (simp add: tr_def)
  from C9_cell_cycle_defaults [OF h, of 5 tr] obtain c where
    r: "poll_iteration 5 tr st =
          Returns (st\<lparr>channels := c,
                      log_file := Some [''Time_ms, V1, 20'' @ [CHR 0x0A], ''2000, 0, 0'' @ [CHR 0x0A]]\<rparr>)"
    and v: "\<exists>ch. map_of (channels st) ''V1'' = Some ch
              \<and> map_of c ''V1'' =
                  Some (ch\<lparr>xs := deque_append (xs ch) 2000, ys := deque_append (ys ch) (Fin 0),
                           vals := deque_append (vals ch) (Fin 0)\<rparr>)"
    unfolding f ts cl using i by auto
  have v': "map_of c ''V1'' =
           Some \<lparr>addr = ''10'', xs = \<lparr>maxlen = 2000, items = [2000]\<rparr>,
                  ys = \<lparr>maxlen = 2000, items = [Fin 0]\<rparr>,
                  vals = \<lparr>maxlen = 2000, items = [Fin 0]\<rparr>\<rparr>"
    using v unfolding chs
    by (simp add: new_channel_def new_deque_def deque_append_def MAX_POINTS_def)
  show ?thesis
    unfolding Let_def st_def [symmetric] tr_def [symmetric]
    using h f r v' by (simp add: alive_def)
qed

section \<open>The tooltip holds the cursor\<close>

lemma place_axis_inside:
  "0 \<le> c \<Longrightarrow> c \<le> limit \<Longrightarrow> TOOLTIP_OFFSET \<le> extent \<Longrightarrow>
     fst (place_axis c extent limit) \<le> c \<and> c \<le> snd (place_axis c extent limit)"
  by (auto simp: place_axis_def Let_def TOOLTIP_OFFSET_def max_def min_def split: if_splits)

lemma place_axis_extent:
  "snd (place_axis c extent limit) - fst (place_axis c extent limit) = extent"
  by (auto simp: place_axis_def Let_def split: if_splits)

lemma fold_max_ge: "(v :: int) \<le> fold max l v"
proof (induction l arbitrary: v)
  case Nil
  show ?case by simp
next
  case (Cons a l)
  have "v \<le> max a v" by simp
  also have "\<dots> \<le> fold max l (max a v)" by (rule Cons.IH)
  finally show ?case by simp
qed

lemma show_tooltip_inside:
  assumes cx: "0 \<le> cursor_x" "cursor_x \<le> cw" and cy: "0 \<le> cursor_y" "cursor_y \<le> ch"
    and pad: "4 \<le> pad"
    and ne: "\<not> label_empty time_line \<or> (channel_lines \<noteq> [] \<and> channel_colors \<noteq> [])"
  shows "\<exists>x0 y0 x1 y1.
      bounds (show_tooltip fn cw ch cursor_x cursor_y time_line channel_lines channel_colors pad tt)
        = Some (x0, y0, x1, y1)
      \<and> x0 \<le> cursor_x \<and> cursor_x \<le> x1 \<and> y0 \<le> cursor_y \<and> cursor_y \<le> y1"
proof -
  define lines where "lines = (if \<not> label_empty time_line then [(time_line, ''white'')] else [])
                  @ zip channel_lines channel_colors"
  have "lines \<noteq> []"
    using ne by (cases channel_lines; cases channel_colors) (auto simp: lines_def)
  then obtain p rest where lines: "lines = p # rest"
    by (cases lines) auto
  define wd where "wd = int (tip_measure fn (fst p))"
  define widths where "widths = map (\<lambda>(s, col). int (tip_measure fn s)) rest"
  have m: "map (\<lambda>(s, col). int (tip_measure fn s)) lines = wd # widths"
    by (simp add: lines wd_def widths_def case_prod_unfold)
  define text_w where "text_w = fold max widths wd"
  define total_h where "total_h = int (tip_linespace fn) * int (length lines)"
  have "0 \<le> wd" by (simp add: wd_def)
  then have w: "TOOLTIP_OFFSET \<le> text_w + pad * 2"
    using fold_max_ge [of wd widths] pad by (simp add: text_w_def TOOLTIP_OFFSET_def)
  have "0 \<le> total_h" by (simp add: total_h_def)
  then have h: "TOOLTIP_OFFSET \<le> total_h + pad * 2"
    using pad by (simp add: TOOLTIP_OFFSET_def)
  obtain x0 x1 where px: "place_axis cursor_x (text_w + pad * 2) cw = (x0, x1)"
    by (cases "place_axis cursor_x (text_w + pad * 2) cw")
  obtain y0 y1 where py: "place_axis cursor_y (total_h + pad * 2) ch = (y0, y1)"
    by (cases "place_axis cursor_y (total_h + pad * 2) ch")
  have "x0 \<le> cursor_x \<and> cursor_x \<le> x1"
    using place_axis_inside [OF cx w] px by simp
  moreover have "y0 \<le> cursor_y \<and> cursor_y \<le> y1"
    using place_axis_inside [OF cy h] py by simp
  moreover have "bounds (show_tooltip fn cw ch cursor_x cursor_y time_line channel_lines
      channel_colors pad tt) = Some (x0, y0, x1, y1)"
    unfolding show_tooltip_def lines_def [symmetric] Let_def m
    by (simp add: text_w_def [symmetric] total_h_def [symmetric] px py)
  ultimately show ?thesis by blast
qed

lemma on_mouse_move_inside:
  "bounds (fst (state_of (on_mouse_move fn w h x y tt st))) = None
   \<or> contains_point (fst (state_of (on_mouse_move fn w h x y tt st))) x y"
proof -
  define tt1 where "tt1 = (if bounds tt \<noteq> None \<and> \<not> contains_point tt x y then hide tt else tt)"
  consider (out) "x < 70 \<or> x > w - 20 \<or> y < 20 \<or> y > h - 70"
    | (keep) "\<not> (x < 70 \<or> x > w - 20 \<or> y < 20 \<or> y > h - 70)" "bounds tt \<noteq> None \<and> contains_point tt x y"
    | (new) "\<not> (x < 70 \<or> x > w - 20 \<or> y < 20 \<or> y > h - 70)" "\<not> (bounds tt \<noteq> None \<and> contains_point tt x y)"
    by blast
  then show ?thesis
  proof cases
    case out
    then show ?thesis by (simp add: on_mouse_move_def hide_def)
  next
    case keep
    then show ?thesis by (simp add: on_mouse_move_def)
  next
    case new
    have t1: "bounds tt1 = None"
      using new(2) by (cases "bounds tt") (auto simp: tt1_def hide_def)
    have inside: "0 \<le> x" "x \<le> w" "0 \<le> y" "y \<le> h"
      using new(1) by auto
    have shown: "bounds (show_tooltip fn w h x y tl cls ccs 6 tt1) = None
        \<or> contains_point (show_tooltip fn w h x y tl cls ccs 6 tt1) x y" for tl cls ccs
    proof (cases "\<not> label_empty tl \<or> (cls \<noteq> [] \<and> ccs \<noteq> [])")
      case True
      from show_tooltip_inside [OF inside _ True, of 6 fn tt1]
      show ?thesis by (auto simp: contains_point_def)
    next
      case False
      then have "show_tooltip fn w h x y tl cls ccs 6 tt1 = hide tt1"
        by (cases cls; cases ccs) (auto simp: show_tooltip_def)
      then show ?thesis by (simp add: hide_def)
    qed
    have eq: "on_mouse_move fn w h x y tt st =
        (if channels_lock st then Blocks (tt1, st)
         else
           (case tooltip_content x 70 (w - 20) (st\<lparr>channels_lock := True\<rparr>) of
              Returns (content, st1) \<Rightarrow>
                Returns
                  ((case content of
                      None \<Rightarrow> tt1
                    | Some (time_line, tips) \<Rightarrow>
                        if tips \<noteq> []
                        then show_tooltip fn w h x y time_line (map fst tips) (map snd tips) 6 tt1
                        else tt1),
                   st1\<lparr>channels_lock := False\<rparr>)
            | Raises e (content, st1) \<Rightarrow> Raises e (tt1, st1\<lparr>channels_lock := False\<rparr>)
            | Blocks (content, st1) \<Rightarrow> Blocks (tt1, st1)))"
      unfolding on_mouse_move_def Let_def tt1_def if_not_P [OF new(1)] if_not_P [OF new(2)]
      by (rule refl)
    show ?thesis
    proof (cases "channels_lock st")
      case True
      then show ?thesis using t1 by (simp add: eq)
    next
      case False
      show ?thesis
      proof (cases "tooltip_content x 70 (w - 20) (st\<lparr>channels_lock := True\<rparr>)")
        case (Returns r)
        obtain content st1 where r: "r = (content, st1)" by (cases r)
        show ?thesis
        proof (cases content)
          case None
          then show ?thesis using t1 False Returns r by (simp add: eq)
        next
          case (Some c)
          obtain time_line tips where c: "c = (time_line, tips)" by (cases c)
          show ?thesis
            using t1 False Returns r Some c shown [of time_line "map fst tips" "map snd tips"]
            by (simp add: eq)
        qed
      next
        case (Raises e r)
        obtain content st1 where r: "r = (content, st1)" by (cases r)
        show ?thesis using t1 False Raises r by (simp add: eq)
      next
        case (Blocks r)
        obtain content st1 where r: "r = (content, st1)" by (cases r)
        show ?thesis using t1 False Blocks r by (simp add: eq)
      qed
    qed
  qed
qed


text \<open>
  Claim C3, as the code has it. \<open>show\<close> keeps its rectangle on the canvas, so it holds
  the cursor when the cursor is on the canvas: for \<open>0 \<le> cursor_x \<le> cw\<close> and
  \<open>0 \<le> cursor_y \<le> ch\<close>, at least one line and a padding of at least 4 (the default,
  which the handler uses, is 6), the rectangle has \<open>x0 \<le> cursor_x \<le> x1\<close> and
  \<open>y0 \<le> cursor_y \<le> y1\<close>. The handler calls \<open>show\<close> only for a cursor inside the
  plot: after a mouse event at any position, on any canvas and in any state, the tooltip
  is either not shown or holds the cursor.
\<close>

theorem C3_cursor_inside_tooltip:
  "(bounds (fst (state_of (on_mouse_move fn w h x y tt st))) = None
    \<or> contains_point (fst (state_of (on_mouse_move fn w h x y tt st))) x y)
   \<and> (0 \<le> cursor_x \<and> cursor_x \<le> cw \<and> 0 \<le> cursor_y \<and> cursor_y \<le> ch \<and> 4 \<le> pad
        \<and> (\<not> label_empty time_line \<or> (channel_lines \<noteq> [] \<and> channel_colors \<noteq> [])) \<longrightarrow>
        (\<exists>x0 y0 x1 y1.
           bounds (show_tooltip fn cw ch cursor_x cursor_y time_line channel_lines
                     channel_colors pad tt) = Some (x0, y0, x1, y1)
           \<and> x0 \<le> cursor_x \<and> cursor_x \<le> x1 \<and> y0 \<le> cursor_y \<and> cursor_y \<le> y1))"
  using on_mouse_move_inside [of fn w h x y tt st]
    show_tooltip_inside [of cursor_x cw cursor_y ch pad time_line channel_lines channel_colors fn tt]
  by blast

text \<open>
  The theorem on a canvas of 800 by 600 pixels, for a channel \<open>V1\<close> with three samples
  and the cursor at (100, 100): the tooltip is shown with the rectangle
  (92, 92, 174, 134).
\<close>

theorem C3_cursor_inside_tooltip_witness:
  "(let fn = \<lparr>grid_linespace = 15, legend_measure = (\<lambda>l. 100), tip_linespace = 15,
               tip_measure = (\<lambda>l. 70)\<rparr>;
        st = (init \<lparr>arg_request_str = None, arg_cells = [''V1:10''], arg_file = None\<rparr>)
               \<lparr>channels := [(''V1'',
                   \<lparr>addr = ''10'', xs = \<lparr>maxlen = 2000, items = [0, 1000, 2000]\<rparr>,
                      ys = \<lparr>maxlen = 2000, items = [Fin 5, Fin 5, Fin 10]\<rparr>,
                      vals = \<lparr>maxlen = 2000, items = [Fin 5, Fin (- 5), Fin 10]\<rparr>\<rparr>)]\<rparr>;
        tt' = fst (state_of (on_mouse_move fn 800 600 100 100 \<lparr>bounds = None, tip_texts = []\<rparr> st))
    in bounds tt' = Some (92, 92, 174, 134) \<and> contains_point tt' 100 100
       \<and> bounds (show_tooltip fn 800 600 100 100 (TimeLine (Fin 1)) [ValueLine ''V1'' (Fin 5)]
                   [''#e6194b''] 6 \<lparr>bounds = None, tip_texts = []\<rparr>)
           = Some (92, 92, 174, 134))"
proof -
  define fn where "fn = \<lparr>grid_linespace = 15, legend_measure = (\<lambda>l :: label. 100 :: nat),
               tip_linespace = 15, tip_measure = (\<lambda>l :: label. 70 :: nat)\<rparr>"
  define st where "st = (init \<lparr>arg_request_str = None, arg_cells = [''V1:10''], arg_file = None\<rparr>)
               \<lparr>channels := [(''V1'',
                   \<lparr>addr = ''10'', xs = \<lparr>maxlen = 2000, items = [0, 1000, 2000]\<rparr>,
                      ys = \<lparr>maxlen = 2000, items = [Fin 5, Fin 5, Fin 10]\<rparr>,
                      vals = \<lparr>maxlen = 2000, items = [Fin 5, Fin (- 5), Fin 10]\<rparr>\<rparr>)]\<rparr>"
  define t0 where "t0 = \<lparr>bounds = None, tip_texts = []\<rparr>"
  define tt' where "tt' = fst (state_of (on_mouse_move fn 800 600 100 100 t0 st))"
  have b: "bounds tt' = Some (92, 92, 174, 134)"
    by (simp add: tt'_def on_mouse_move_def tooltip_content_def contains_point_def t0_def
        st_def init_def truthy_def assign_color_def color_cycle_def Let_def
        show_tooltip_def place_axis_def TOOLTIP_OFFSET_def fn_def
        time_under_cursor_def distance_def int_truediv_def float_of_int_def and_then_def
        fsub_def round_eval)
  have s: "bounds (show_tooltip fn 800 600 100 100 (TimeLine (Fin 1)) [ValueLine ''V1'' (Fin 5)]
                   [''#e6194b''] 6 t0) = Some (92, 92, 174, 134)"
    using C3_cursor_inside_tooltip [of fn 800 600 100 100 t0 st 100 800 100 600 6
        "TimeLine (Fin 1)" "[ValueLine ''V1'' (Fin 5)]" "[''#e6194b'']"]
    by (simp add: show_tooltip_def place_axis_def TOOLTIP_OFFSET_def fn_def Let_def)
  have c: "contains_point tt' 100 100"
    using C3_cursor_inside_tooltip [of fn 800 600 100 100 t0 st 100 800 100 600 6
        "TimeLine (Fin 1)" "[ValueLine ''V1'' (Fin 5)]" "[''#e6194b'']"] b
    by (simp add: tt'_def)
  show ?thesis
    unfolding Let_def fn_def [symmetric] st_def [symmetric] t0_def [symmetric] tt'_def [symmetric]
    using b c s by simp
qed

text \<open>
  Where the claim fails: with a tooltip font 15 pixels high and texts 70 pixels wide on
  a canvas of 800 by 600 pixels, \<open>show\<close> for the cursor at (-5, 100), left of the canvas,
  places the rectangle (0, 92, 82, 134), which starts right of the cursor. And with
  texts 5 pixels wide and no padding, \<open>show\<close> for the cursor at (100, 100) places the
  rectangle (92, 92, 97, 122), which ends left of the cursor.
\<close>

theorem C3_cursor_outside_counterexample:
  "bounds (show_tooltip \<lparr>grid_linespace = 15, legend_measure = (\<lambda>l. 100), tip_linespace = 15,
               tip_measure = (\<lambda>l. 70)\<rparr> 800 600 (- 5) 100 (TimeLine (Fin 1))
             [ValueLine ''V1'' (Fin 5)] [''#e6194b''] 6 \<lparr>bounds = None, tip_texts = []\<rparr>)
     = Some (0, 92, 82, 134)
   \<and> \<not> contains_point
         (show_tooltip \<lparr>grid_linespace = 15, legend_measure = (\<lambda>l. 100), tip_linespace = 15,
               tip_measure = (\<lambda>l. 70)\<rparr> 800 600 (- 5) 100 (TimeLine (Fin 1))
             [ValueLine ''V1'' (Fin 5)] [''#e6194b''] 6 \<lparr>bounds = None, tip_texts = []\<rparr>)
         (- 5) 100
   \<and> bounds (show_tooltip \<lparr>grid_linespace = 15, legend_measure = (\<lambda>l. 100), tip_linespace = 15,
               tip_measure = (\<lambda>l. 5)\<rparr> 800 600 100 100 (TimeLine (Fin 1))
             [ValueLine ''V1'' (Fin 5)] [''#e6194b''] 0 \<lparr>bounds = None, tip_texts = []\<rparr>)
     = Some (92, 92, 97, 122)
   \<and> \<not> contains_point
         (show_tooltip \<lparr>grid_linespace = 15, legend_measure = (\<lambda>l. 100), tip_linespace = 15,
               tip_measure = (\<lambda>l. 5)\<rparr> 800 600 100 100 (TimeLine (Fin 1))
             [ValueLine ''V1'' (Fin 5)] [''#e6194b''] 0 \<lparr>bounds = None, tip_texts = []\<rparr>)
         100 100"
  by (simp add: show_tooltip_def place_axis_def TOOLTIP_OFFSET_def contains_point_def Let_def)

section \<open>Grid lines\<close>

text \<open>The largest magnitude of a channel: a positive double that bounds every magnitude.\<close>

lemma fabs_double:
  assumes "finite_double v"
  shows "\<exists>q. fabs v = Fin q \<and> 0 \<le> q \<and> round_double q = Fin q \<and> q = \<bar>fin_val v\<bar>"
proof -
  from assms obtain r where r: "v = Fin r" "round_double r = Fin r" by (cases v) auto
  have "round_double \<bar>r\<bar> = Fin \<bar>r\<bar>"
  proof (cases "r < 0")
    case True
    then show ?thesis using r(2) round_double_minus [of r] by simp
  next
    case False
    then show ?thesis using r(2) by simp
  qed
  then show ?thesis using r by simp
qed

lemma fold_fmax2_max:
  "P r \<Longrightarrow> \<forall>w \<in> set l. \<exists>q. w = Fin q \<and> P q \<Longrightarrow>
     \<exists>q. fold (\<lambda>w r. fmax2 r w) l (Fin r) = Fin q \<and> P q \<and> r \<le> q
       \<and> (\<forall>w \<in> set l. \<exists>u. w = Fin u \<and> u \<le> q)"
proof (induction l arbitrary: r)
  case Nil
  then show ?case by simp
next
  case (Cons w l)
  then obtain u where w: "w = Fin u" "P u" by auto
  define r' where "r' = (if r < u then u else r)"
  have step: "fmax2 (Fin r) (Fin u) = Fin r'" by (simp add: fmax2_def r'_def)
  have "P r'" using Cons.prems(1) w(2) by (simp add: r'_def)
  from Cons.IH [OF this] Cons.prems(2) obtain q where
    q: "fold (\<lambda>w r. fmax2 r w) l (Fin r') = Fin q" "P q" "r' \<le> q"
      "\<forall>w \<in> set l. \<exists>u. w = Fin u \<and> u \<le> q"
    by auto
  have "r \<le> q" "u \<le> q" using q(3) by (simp_all add: r'_def split: if_splits)
  then show ?case using q w by (intro exI [of _ q]) (simp add: step)
qed

lemma channel_y_max_double:
  assumes "\<forall>v \<in> set (items (ys ch)). finite_double v \<and> mag_le 1000 (fin_val v)"
  shows "\<exists>m. 0 < m \<and> channel_y_max ch = Inr (Fin m) \<and> round_double m = Fin m
           \<and> m \<le> 2 powi 1000 \<and> (\<forall>v \<in> set (items (ys ch)). \<bar>fin_val v\<bar> \<le> m)"
proof -
  define P where "P q = (0 \<le> q \<and> round_double q = Fin q \<and> q \<le> 2 powi 1000)" for q :: real
  have one: "round_double 1 = Fin 1"
    by (simp add: round_double_up [where k = 52] round_even_def)
  show ?thesis
  proof (cases "items (ys ch)")
    case Nil
    have "channel_y_max ch = Inr (Fin 1)"
      by (simp add: channel_y_max_def Nil and_then_def)
    moreover have "(1::real) \<le> 2 powi 1000" by simp
    ultimately show ?thesis using one Nil by (intro exI [of _ 1]) simp
  next
    case (Cons v0 rest)
    have all: "\<forall>w \<in> set (map fabs (items (ys ch))). \<exists>q. w = Fin q \<and> P q"
    proof
      fix w assume "w \<in> set (map fabs (items (ys ch)))"
      then obtain v where v: "v \<in> set (items (ys ch))" "w = fabs v" by auto
      then have d: "finite_double v" "mag_le 1000 (fin_val v)" using assms by auto
      from fabs_double [OF d(1)] d(2) show "\<exists>q. w = Fin q \<and> P q"
        by (auto simp: v(2) P_def mag_le_def)
    qed
    then obtain r where r: "fabs v0 = Fin r" "P r" by (auto simp: Cons)
    from fold_fmax2_max [of P r "map fabs rest"] r(2) all obtain q where
      q: "fold (\<lambda>w r. fmax2 r w) (map fabs rest) (Fin r) = Fin q" "P q" "r \<le> q"
        "\<forall>w \<in> set (map fabs rest). \<exists>u. w = Fin u \<and> u \<le> q"
      by (auto simp: Cons)
    have bound: "\<forall>v \<in> set (items (ys ch)). \<bar>fin_val v\<bar> \<le> q"
    proof
      fix v assume v: "v \<in> set (items (ys ch))"
      then have "finite_double v" using assms by auto
      from fabs_double [OF this] obtain a where a: "fabs v = Fin a" "a = \<bar>fin_val v\<bar>" by auto
      show "\<bar>fin_val v\<bar> \<le> q"
      proof (cases "v = v0")
        case True
        then show ?thesis using a r(1) q(3) by simp
      next
        case False
        then have "fabs v \<in> set (map fabs rest)" using v by (auto simp: Cons)
        then show ?thesis using q(4) a by auto
      qed
    qed
    have ym: "channel_y_max ch = Inr (if Fin q = Fin 0 then Fin 1 else Fin q)"
      by (simp add: channel_y_max_def Cons and_then_def r(1) q(1))
    show ?thesis
    proof (cases "q = 0")
      case True
      have "(1::real) \<le> 2 powi 1000" by simp
      then show ?thesis using ym True bound one by (intro exI [of _ 1]) auto
    next
      case False
      then show ?thesis using ym q(2) bound by (intro exI [of _ q]) (auto simp: P_def)
    qed
  qed
qed


lemma y_domain_binade:
  assumes m: "0 < m" "round_double m = Fin m" "m \<le> 2 powi 1000"
  shows "\<exists>j. 2 powi (j - 1) \<le> m \<and> m \<le> 2 powi j \<and> - 1074 \<le> j \<and> j \<le> 1001"
proof -
  from binade [OF m(1)] obtain j where j: "2 powi (j - 1) \<le> m" "m < 2 powi j" by blast
  have "(2::real) powi (j - 1) \<le> 2 powi 1000" using j(1) m(3) by linarith
  then have "j - 1 \<le> 1000"
    using power_int_strict_increasing [of 1000 "j - 1" "2::real"] by (cases "j - 1 \<le> 1000") simp_all
  moreover have "(2::real) powi (- 1074) < 2 powi j"
    using double_ge_min [OF m(2,1)] j(2) by linarith
  then have "- 1074 \<le> j"
    using power_int_increasing [of j "- 1074" "2::real"] by (cases "- 1074 \<le> j") simp_all
  ultimately show ?thesis using j by (intro exI [of _ j]) simp
qed

text \<open>The points of the polyline.\<close>

lemma points_returns:
  assumes m: "round_double m = Fin m" "0 < m" "2 powi (j - 1) \<le> m" "m \<le> 2 powi j"
    and j: "- 1074 \<le> j" "j \<le> 1001"
    and x: "x_min < x_max"
    and cv: "mag_le 1000 (real_of_int left)" "mag_le 1000 (real_of_int (right - left))"
      "mag_le 1000 (real_of_int ybot)" "mag_le 1000 (real_of_int (ybot - ytop))"
  shows "\<forall>p \<in> set l. x_min \<le> fst p \<and> fst p \<le> x_max \<and> finite_double (snd p)
             \<and> \<bar>fin_val (snd p)\<bar> \<le> m \<Longrightarrow>
     \<exists>pts. points left ytop right ybot x_min x_max (Fin m) l = Inr pts \<and> length pts = length l"
proof (induction l)
  case Nil
  show ?case by simp
next
  case (Cons p l)
  obtain xv v where p: "p = (xv, v)" by (cases p)
  have pv: "x_min \<le> xv" "xv \<le> x_max" "finite_double v" "\<bar>fin_val v\<bar> \<le> m"
    using Cons.prems p by auto
  from fabs_double [OF pv(3)] obtain q where q: "fabs v = Fin q" "0 \<le> q" "q = \<bar>fin_val v\<bar>"
    by auto
  from x_pixel_returns [OF x pv(1,2) cv(1,2)] obtain px where
    px: "x_pixel left right x_min x_max xv = Inr px" by blast
  have "(2::real) powi j \<le> 2 powi (j + 2)" by (intro power_int_increasing) simp_all
  then have "mag_le (j + 2) q" using q pv(4) m(4) by (simp add: mag_le_def)
  moreover have "- 1076 \<le> j" "j \<le> 1021" using j by simp_all
  ultimately obtain py where py: "y_pixel ytop ybot (Fin 0) (Fin m) (Fin q) = Inr py"
    using y_pixel_returns [OF m(1,2,3) _ _ _ cv(3,4)] by blast
  from Cons obtain pts where
    pts: "points left ytop right ybot x_min x_max (Fin m) l = Inr pts" "length pts = length l"
    by auto
  show ?case
    by (simp add: p q(1) px py and_then_def pts)
qed

text \<open>
  The value of a grid line, spelled out: the evenly spaced value, and for the topmost
  line that value less half a step.
\<close>

lemma grid_value_spelled:
  assumes i: "i \<le> GRID_LINES" and g: "grid_value (Fin 0) (Fin m) step i = Inr v"
    and h: "fdiv step (Fin 2) = Inr half"
  shows "\<exists>q. fdiv (fmul (Fin (real i)) (fsub (Fin m) (Fin 0))) (Fin (real GRID_LINES)) = Inr q
           \<and> v = (if i = GRID_LINES then fmax2 (Fin 0) (fsub (fadd (Fin 0) q) half)
                  else fadd (Fin 0) q)"
proof -
  have fi: "float_of_int (int i) = Inr (Fin (real i))"
    using i by (intro float_of_int_small) (simp add: GRID_LINES_def)
  show ?thesis
  proof (cases "fdiv (fmul (Fin (real i)) (fsub (Fin m) (Fin 0))) (Fin (real GRID_LINES))")
    case (Inl e)
    then show ?thesis using g by (simp add: grid_value_def fi and_then_def)
  next
    case (Inr q)
    then show ?thesis using g h by (auto simp: grid_value_def fi and_then_def)
  qed
qed

text \<open>The loop over the grid lines: each line at the pixel of its value, each label with
  that value.\<close>

lemma grid_loop_returns:
  assumes m: "round_double m = Fin m" "0 < m" "2 powi (j - 1) \<le> m" "m \<le> 2 powi j"
    and j: "- 1074 \<le> j" "j \<le> 1001"
    and s: "0 \<le> s" "mag_le j s" and h: "fdiv (Fin s) (Fin 2) = Inr half"
    and cv: "mag_le 1000 (real_of_int ybot)" "mag_le 1000 (real_of_int (ybot - ytop))"
  shows "\<forall>i \<in> set ls. i \<le> GRID_LINES \<Longrightarrow>
     \<exists>vs ps cs. length cs = length ls
       \<and> list_all2 (\<lambda>i v. \<exists>q.
             fdiv (fmul (Fin (real i)) (fsub (Fin m) (Fin 0))) (Fin (real GRID_LINES)) = Inr q
             \<and> v = (if i = GRID_LINES then fmax2 (Fin 0) (fsub (fadd (Fin 0) q) half)
                    else fadd (Fin 0) q)) ls vs
       \<and> list_all2 (\<lambda>v p. y_pixel ytop ybot (Fin 0) (Fin m) v = Inr p) vs ps
       \<and> grid_loop fn left ytop right ybot (Fin m) (Fin s) color ls fr =
           Returns (fr\<lparr>drawn := drawn fr @ concat (map (\<lambda>(p, v, c).
                [Line left p right p ''#444444'',
                 CanvasText (left - 6) (fst c + (int (grid_linespace fn) + 2) div 2) ''e''
                   (Fixed 2 v []) color GridFont]) (zip ps (zip vs cs))),
              placed_label_rects := placed_label_rects fr @ cs\<rparr>)"
proof (induction ls arbitrary: fr)
  case Nil
  show ?case by (intro exI [of _ "[]"]) simp
next
  case (Cons i ls)
  have i: "i \<le> GRID_LINES" using Cons.prems by simp
  have j': "j \<le> 1020" using j by simp
  from grid_value_returns [OF m(1,2,4) j(1) j' i s] obtain gv where
    gv: "grid_value (Fin 0) (Fin m) (Fin s) i = Inr (Fin gv)" "mag_le (j + 1) gv" by blast
  have "mag_le (j + 2) gv" using gv(2) by (rule mag_mono) simp
  moreover have "- 1076 \<le> j" "j \<le> 1021" using j by simp_all
  ultimately obtain yc where yc: "y_pixel ytop ybot (Fin 0) (Fin m) (Fin gv) = Inr yc"
    using y_pixel_returns [OF m(1,2,3) _ _ _ cv] by blast
  define c where "c = place_label ytop ybot (int (grid_linespace fn) + 2) (placed_label_rects fr) yc"
  define fr1 where "fr1 = fr\<lparr>drawn := drawn fr @
                       [Line left yc right yc ''#444444'',
                        CanvasText (left - 6) (fst c + (int (grid_linespace fn) + 2) div 2) ''e''
                          (Fixed 2 (Fin gv) []) color GridFont],
                     placed_label_rects := placed_label_rects fr @ [c]\<rparr>"
  have step: "grid_loop fn left ytop right ybot (Fin m) (Fin s) color (i # ls) fr
      = grid_loop fn left ytop right ybot (Fin m) (Fin s) color ls fr1"
    by (simp only: grid_loop.simps gv(1) yc and_then_def sum.case prod.case Let_def
        c_def [symmetric] fr1_def)
  have "\<forall>i \<in> set ls. i \<le> GRID_LINES" using Cons.prems by simp
  from Cons.IH [OF this, of fr1] obtain vs ps cs where
    len: "length cs = length ls"
    and v: "list_all2 (\<lambda>i v. \<exists>q.
             fdiv (fmul (Fin (real i)) (fsub (Fin m) (Fin 0))) (Fin (real GRID_LINES)) = Inr q
             \<and> v = (if i = GRID_LINES then fmax2 (Fin 0) (fsub (fadd (Fin 0) q) half)
                    else fadd (Fin 0) q)) ls vs"
    and p: "list_all2 (\<lambda>v p. y_pixel ytop ybot (Fin 0) (Fin m) v = Inr p) vs ps"
    and r: "grid_loop fn left ytop right ybot (Fin m) (Fin s) color ls fr1 =
           Returns (fr1\<lparr>drawn := drawn fr1 @ concat (map (\<lambda>(p, v, c).
                [Line left p right p ''#444444'',
                 CanvasText (left - 6) (fst c + (int (grid_linespace fn) + 2) div 2) ''e''
                   (Fixed 2 v []) color GridFont]) (zip ps (zip vs cs))),
              placed_label_rects := placed_label_rects fr1 @ cs\<rparr>)"
    by blast
  from grid_value_spelled [OF i gv(1) h] have v0: "\<exists>q.
             fdiv (fmul (Fin (real i)) (fsub (Fin m) (Fin 0))) (Fin (real GRID_LINES)) = Inr q
             \<and> Fin gv = (if i = GRID_LINES then fmax2 (Fin 0) (fsub (fadd (Fin 0) q) half)
                    else fadd (Fin 0) q)" .
  show ?case
    unfolding step r
    using len v p v0 yc
    by (intro exI [of _ "Fin gv # vs"] exI [of _ "yc # ps"] exI [of _ "c # cs"])
       (simp add: fr1_def)
qed


text \<open>
  Claim C4, as the code has it. Take a channel with at least one timestamp whose values
  are finite doubles of magnitude at most \<open>2 ^ 1000\<close>, with \<open>ys\<close> their magnitudes, on
  a time axis that holds its timestamps and a canvas whose coordinates are at most
  \<open>2 ^ 1000\<close> too. Then the pass over the channel returns. The Y domain is \<open>[0, m]\<close> with
  \<open>m > 0\<close>, and after the polyline the pass draws \<open>GRID_LINES + 1\<close> grid lines, each
  with one label. The value of grid line \<open>i\<close> below the topmost is the evenly spaced
  \<open>0.0 + i * (m - 0.0) / GRID_LINES\<close>, in float arithmetic; the value of the topmost is
  that value less half a step, and not below 0. Each line is drawn at the pixel of its
  value, and its label shows that same value with two decimals: for the topmost line
  the shifted value, not \<open>m\<close>.
\<close>

theorem C4_grid_lines_and_labels:
  assumes "items (xs ch) \<noteq> []"
    and "items (ys ch) = map fabs (items (vals ch))"
    and "\<forall>v \<in> set (items (vals ch)). finite_double v \<and> mag_le 1000 (fin_val v)"
    and "x_min < x_max"
    and "\<forall>xv \<in> set (items (xs ch)). x_min \<le> xv \<and> xv \<le> x_max"
    and "mag_le 1000 (real_of_int left)" and "mag_le 1000 (real_of_int (right - left))"
    and "mag_le 1000 (real_of_int ybot)" and "mag_le 1000 (real_of_int (ybot - ytop))"
  shows "\<exists>m step half vs ps pts cs.
       0 < m \<and> channel_y_max ch = Inr (Fin m)
     \<and> fdiv (fsub (Fin m) (Fin 0)) (Fin (real GRID_LINES)) = Inr step
     \<and> fdiv step (Fin 2) = Inr half
     \<and> list_all2 (\<lambda>i v. \<exists>q.
           fdiv (fmul (Fin (real i)) (fsub (Fin m) (Fin 0))) (Fin (real GRID_LINES)) = Inr q
           \<and> v = (if i = GRID_LINES then fmax2 (Fin 0) (fsub (fadd (Fin 0) q) half)
                  else fadd (Fin 0) q)) [0 ..< GRID_LINES + 1] vs
     \<and> list_all2 (\<lambda>v p. y_pixel ytop ybot (Fin 0) (Fin m) v = Inr p) vs ps
     \<and> length cs = GRID_LINES + 1
     \<and> draw_channel fn left ytop right ybot x_min x_max (name, ch) fr =
         Returns (fr\<lparr>drawn := drawn fr @ polyline (fst (assign_color name (obj fr))) pts
            @ concat (map (\<lambda>(p, v, c).
                [Line left p right p ''#444444'',
                 CanvasText (left - 6) (fst c + (int (grid_linespace fn) + 2) div 2) ''e''
                   (Fixed 2 v []) (fst (assign_color name (obj fr))) GridFont])
                (zip ps (zip vs cs))),
            placed_label_rects := placed_label_rects fr @ cs,
            obj := snd (assign_color name (obj fr))\<rparr>)"
proof -
  note ne = assms(1) and al = assms(2) and dv = assms(3) and x = assms(4) and xr = assms(5)
    and cv = assms(6-9)
  have dy: "\<forall>v \<in> set (items (ys ch)). finite_double v \<and> mag_le 1000 (fin_val v)"
  proof
    fix v assume "v \<in> set (items (ys ch))"
    then obtain w where w: "w \<in> set (items (vals ch))" "v = fabs w" unfolding al by auto
    then have d: "finite_double w" "mag_le 1000 (fin_val w)" using dv by auto
    from fabs_double [OF d(1)] d(2) show "finite_double v \<and> mag_le 1000 (fin_val v)"
      by (auto simp: w(2) mag_le_def)
  qed
  from channel_y_max_double [OF dy] obtain m where
    m: "0 < m" "channel_y_max ch = Inr (Fin m)" "round_double m = Fin m" "m \<le> 2 powi 1000"
      "\<forall>v \<in> set (items (ys ch)). \<bar>fin_val v\<bar> \<le> m"
    by blast
  from y_domain_binade [OF m(1,3,4)] obtain j where
    j: "2 powi (j - 1) \<le> m" "m \<le> 2 powi j" "- 1074 \<le> j" "j \<le> 1001"
    by blast
  have vb: "\<forall>v \<in> set (items (vals ch)). \<bar>fin_val v\<bar> \<le> m"
  proof
    fix v assume v: "v \<in> set (items (vals ch))"
    then have "finite_double v" using dv by auto
    from fabs_double [OF this] obtain q where q: "fabs v = Fin q" "q = \<bar>fin_val v\<bar>" by auto
    have "fabs v \<in> set (items (ys ch))" unfolding al using v by simp
    then show "\<bar>fin_val v\<bar> \<le> m" using m(5) q by force
  qed
  have "\<forall>p \<in> set (zip (items (xs ch)) (items (vals ch))).
      x_min \<le> fst p \<and> fst p \<le> x_max \<and> finite_double (snd p) \<and> \<bar>fin_val (snd p)\<bar> \<le> m"
    using xr dv vb by (auto dest: set_zip_leftD set_zip_rightD)
  from points_returns [OF m(3,1) j x cv this] obtain pts where
    pts: "points left ytop right ybot x_min x_max (Fin m)
            (zip (items (xs ch)) (items (vals ch))) = Inr pts"
    by blast
  have j3: "j \<le> 1023" using j(4) by simp
  from step_returns [OF m(3,1) j(2,3) j3] obtain s where
    s: "fdiv (fsub (Fin m) (Fin 0)) (Fin (real GRID_LINES)) = Inr (Fin s)" "0 \<le> s" "mag_le j s"
    by blast
  define half where "half = round_double (s / 2)"
  have h: "fdiv (Fin s) (Fin 2) = Inr half" by (simp add: half_def)
  define color where "color = fst (assign_color name (obj fr))"
  define st1 where "st1 = snd (assign_color name (obj fr))"
  define fr1 where "fr1 = fr\<lparr>drawn := drawn fr @ polyline color pts, obj := st1\<rparr>"
  have ac: "assign_color name (obj fr) = (color, st1)"
    by (simp add: color_def st1_def)
  have dc: "draw_channel fn left ytop right ybot x_min x_max (name, ch) fr =
      grid_loop fn left ytop right ybot (Fin m) (Fin s) color [0 ..< GRID_LINES + 1] fr1"
    unfolding draw_channel_def
    by (simp only: fst_conv snd_conv ne if_False m(2) pts and_then_def sum.case prod.case
        Let_def ac s(1) fr1_def)
  have "\<forall>i \<in> set [0 ..< GRID_LINES + 1]. i \<le> GRID_LINES" by auto
  from grid_loop_returns [OF m(3,1) j s(2,3) h cv(3,4) this, of fn left right color fr1]
  obtain vs ps cs where len: "length cs = length [0 ..< GRID_LINES + 1]"
    and v: "list_all2 (\<lambda>i v. \<exists>q.
             fdiv (fmul (Fin (real i)) (fsub (Fin m) (Fin 0))) (Fin (real GRID_LINES)) = Inr q
             \<and> v = (if i = GRID_LINES then fmax2 (Fin 0) (fsub (fadd (Fin 0) q) half)
                    else fadd (Fin 0) q)) [0 ..< GRID_LINES + 1] vs"
    and p: "list_all2 (\<lambda>v p. y_pixel ytop ybot (Fin 0) (Fin m) v = Inr p) vs ps"
    and r: "grid_loop fn left ytop right ybot (Fin m) (Fin s) color [0 ..< GRID_LINES + 1] fr1 =
           Returns (fr1\<lparr>drawn := drawn fr1 @ concat (map (\<lambda>(p, v, c).
                [Line left p right p ''#444444'',
                 CanvasText (left - 6) (fst c + (int (grid_linespace fn) + 2) div 2) ''e''
                   (Fixed 2 v []) color GridFont]) (zip ps (zip vs cs))),
              placed_label_rects := placed_label_rects fr1 @ cs\<rparr>)"
    by blast
  have len': "length cs = GRID_LINES + 1" using len by simp
  show ?thesis
    unfolding dc r color_def [symmetric] st1_def [symmetric]
    using m(1,2) s(1) h v p len'
    by (intro exI [of _ m] exI [of _ "Fin s"] exI [of _ half] exI [of _ vs] exI [of _ ps]
          exI [of _ pts] exI [of _ cs])
       (simp add: fr1_def)
qed


lemmas place_eval = place_label_def probe.simps overlaps_def clamp_label_def

lemmas pixel_eval = x_pixel_def y_pixel_def grid_value_def axis_seconds_def and_then_def
  fsub_def fmax2_def float_of_int_def int_truediv_def py_int_def GRID_LINES_def round_eval

lemmas pass_eval = update_canvas_def render_locked_def draw_channel_def channel_y_max_def
  pixel_eval upt_rec assign_color_def color_cycle_def draw_legend_def legend_entry_def
  LEGEND_GAP_def init_def truthy_def

text \<open>
  The theorem at the channel \<open>V1\<close> with the values 5, -5, 10 on a plot from pixel 20 to
  pixel 530: the domain is [0, 10], and the pass returns.
\<close>

theorem C4_grid_lines_and_labels_witness:
  "(let ch = \<lparr>addr = ''10'', xs = \<lparr>maxlen = 2000, items = [0, 1000, 2000]\<rparr>,
               ys = \<lparr>maxlen = 2000, items = [Fin 5, Fin 5, Fin 10]\<rparr>,
               vals = \<lparr>maxlen = 2000, items = [Fin 5, Fin (- 5), Fin 10]\<rparr>\<rparr>;
        fn = \<lparr>grid_linespace = 15, legend_measure = (\<lambda>l. 100), tip_linespace = 15,
               tip_measure = (\<lambda>l. 70)\<rparr>;
        fr = \<lparr>drawn = [], placed_label_rects = [], legend_x = 70,
               obj = init \<lparr>arg_request_str = None, arg_cells = [], arg_file = None\<rparr>\<rparr>
    in items (xs ch) \<noteq> [] \<and> items (ys ch) = map fabs (items (vals ch))
       \<and> list_all (\<lambda>v. finite_double v \<and> mag_le 1000 (fin_val v)) (items (vals ch))
       \<and> list_all (\<lambda>xv. 0 \<le> xv \<and> xv \<le> 2000) (items (xs ch))
       \<and> mag_le 1000 70 \<and> mag_le 1000 (real_of_int (780 - 70)) \<and> mag_le 1000 530
       \<and> mag_le 1000 (real_of_int (530 - 20))
       \<and> channel_y_max ch = Inr (Fin 10)
       \<and> (\<exists>fr'. draw_channel fn 70 20 780 530 0 2000 (''V1'', ch) fr = Returns fr'
              \<and> length (placed_label_rects fr') = 6))"
proof -
  define ch where "ch = \<lparr>addr = ''10'', xs = \<lparr>maxlen = 2000, items = [0, 1000, 2000]\<rparr>,
               ys = \<lparr>maxlen = 2000, items = [Fin 5, Fin 5, Fin 10]\<rparr>,
               vals = \<lparr>maxlen = 2000, items = [Fin 5, Fin (- 5), Fin 10]\<rparr>\<rparr>"
  define fn where "fn = \<lparr>grid_linespace = 15, legend_measure = (\<lambda>l :: label. 100 :: nat),
               tip_linespace = 15, tip_measure = (\<lambda>l :: label. 70 :: nat)\<rparr>"
  define fr where "fr = \<lparr>drawn = [], placed_label_rects = [], legend_x = 70,
               obj = init \<lparr>arg_request_str = None, arg_cells = [], arg_file = None\<rparr>\<rparr>"
  have h: "items (xs ch) \<noteq> []" "items (ys ch) = map fabs (items (vals ch))"
      "\<forall>v \<in> set (items (vals ch)). finite_double v \<and> mag_le 1000 (fin_val v)"
      "(0::int) < 2000" "\<forall>xv \<in> set (items (xs ch)). 0 \<le> xv \<and> xv \<le> 2000"
      "mag_le 1000 (real_of_int 70)" "mag_le 1000 (real_of_int (780 - 70))"
      "mag_le 1000 (real_of_int 530)" "mag_le 1000 (real_of_int (530 - 20))"
    by (simp_all add: ch_def mag_le_def round_eval)
  have ym: "channel_y_max ch = Inr (Fin 10)"
    by (simp add: ch_def channel_y_max_def and_then_def fmax2_def)
  from C4_grid_lines_and_labels [OF h, of fn "''V1''" fr]
  have "\<exists>fr'. draw_channel fn 70 20 780 530 0 2000 (''V1'', ch) fr = Returns fr'
          \<and> length (placed_label_rects fr') = 6"
    by (auto simp: fr_def GRID_LINES_def)
  then show ?thesis
    unfolding Let_def ch_def [symmetric] fn_def [symmetric] fr_def [symmetric]
    using h ym by (simp add: list_all_iff)
qed

text \<open>
  Where the claim fails: a channel \<open>V1\<close> with the values 5, -5, 10 on a canvas of 800 by
  600 pixels. Its Y domain is [0, 10], so the bands are 2 wide and the topmost band
  value is 10. The pass draws the topmost grid line at pixel 71, which is the value 9,
  and labels it with 9, not with 10.
\<close>

theorem C4_topmost_label_counterexample:
  "fst (state_of (update_canvas
      \<lparr>grid_linespace = 15, legend_measure = (\<lambda>l. 100), tip_linespace = 15,
         tip_measure = (\<lambda>l. 70)\<rparr> 800 600
      ((init \<lparr>arg_request_str = None, arg_cells = [], arg_file = None\<rparr>)
         \<lparr>channels := [(''V1'',
             \<lparr>addr = ''10'', xs = \<lparr>maxlen = 2000, items = [0, 1000, 2000]\<rparr>,
                ys = \<lparr>maxlen = 2000, items = [Fin 5, Fin 5, Fin 10]\<rparr>,
                vals = \<lparr>maxlen = 2000, items = [Fin 5, Fin (- 5), Fin 10]\<rparr>\<rparr>)]\<rparr>)))
   = [Rectangle 70 20 780 530,
      Line 70 275 425 275 ''#e6194b'', Line 425 275 780 20 ''#e6194b'',
      Line 70 530 780 530 ''#444444'',
      CanvasText 64 521 ''e'' (Fixed 2 (Fin 0) []) ''#e6194b'' GridFont,
      Line 70 428 780 428 ''#444444'',
      CanvasText 64 428 ''e'' (Fixed 2 (Fin 2) []) ''#e6194b'' GridFont,
      Line 70 326 780 326 ''#444444'',
      CanvasText 64 326 ''e'' (Fixed 2 (Fin 4) []) ''#e6194b'' GridFont,
      Line 70 224 780 224 ''#444444'',
      CanvasText 64 224 ''e'' (Fixed 2 (Fin 6) []) ''#e6194b'' GridFont,
      Line 70 122 780 122 ''#444444'',
      CanvasText 64 122 ''e'' (Fixed 2 (Fin 8) []) ''#e6194b'' GridFont,
      Line 70 71 780 71 ''#444444'',
      CanvasText 64 71 ''e'' (Fixed 2 (Fin 9) []) ''#e6194b'' GridFont,
      CanvasText 10 548 ''nw'' (Fixed 1 (Fin 0) '' s'') ''white'' GridFont,
      CanvasText 780 548 ''ne'' (Fixed 1 (Fin 2) '' s'') ''white'' GridFont,
      CanvasText 70 536 ''nw'' (Legend ''V1'' (FloatVal (Fin 10))) ''#e6194b'' LegendFont]"
proof -
  have s0: "place_label 20 530 17 [] 530 = (513, 530)"
    by (simp add: place_eval)
  have s1: "place_label 20 530 17 [(513, 530)] 428 = (420, 437)"
    by (simp add: place_eval)
  have s2: "place_label 20 530 17 [(513, 530), (420, 437)] 326 = (318, 335)"
    by (simp add: place_eval)
  have s3: "place_label 20 530 17 [(513, 530), (420, 437), (318, 335)] 224 = (216, 233)"
    by (simp add: place_eval)
  have s4: "place_label 20 530 17 [(513, 530), (420, 437), (318, 335), (216, 233)] 122 = (114, 131)"
    by (simp add: place_eval)
  have s5: "place_label 20 530 17 [(513, 530), (420, 437), (318, 335), (216, 233), (114, 131)] 71 = (63, 80)"
    by (simp add: place_eval)
  show ?thesis
    by (simp add: pass_eval s0 s1 s2 s3 s4 s5) (simp add: pass_eval Let_def)
qed

text \<open>
  Two passes that exact arithmetic would get wrong. For a channel whose largest
  magnitude is 9, the value of grid line 3 is the double nearest to 5.4, and the line is
  drawn at pixel 223, where the exact numbers give 224. And for a channel with the
  value \<open>2 ^ 1023\<close>, which the theorem leaves out, \<^verbatim>\<open>2 * y_max\<close> is an infinity: the
  pass draws two grid lines and then \<^verbatim>\<open>int\<close> raises \<^verbatim>\<open>OverflowError\<close>.
\<close>

lemma rounding_moves_a_grid_line:
  "and_then (fdiv (fsub (Fin 9) (Fin 0)) (Fin (real GRID_LINES))) (\<lambda>step.
     and_then (grid_value (Fin 0) (Fin 9) step 3) (y_pixel 20 530 (Fin 0) (Fin 9))) = Inr 223
   \<and> py_int (530 - 3 * 9 / 5 / 9 * 510) = 224"
  by (simp add: pixel_eval)

lemma large_value_overflows:
  "(case draw_channel
      \<lparr>grid_linespace = 15, legend_measure = (\<lambda>l. 100), tip_linespace = 15,
         tip_measure = (\<lambda>l. 70)\<rparr> 70 20 780 530 0 1
      (''V1'', \<lparr>addr = ''10'', xs = \<lparr>maxlen = 2000, items = [0]\<rparr>,
                 ys = \<lparr>maxlen = 2000, items = [Fin (2 ^ 1023)]\<rparr>,
                 vals = \<lparr>maxlen = 2000, items = [Fin (2 ^ 1023)]\<rparr>\<rparr>)
      \<lparr>drawn = [Rectangle 70 20 780 530], placed_label_rects = [], legend_x = 70,
         obj = init \<lparr>arg_request_str = None, arg_cells = [], arg_file = None\<rparr>\<rparr> of
      Raises e fr \<Rightarrow> e = OverflowError \<and> placed_label_rects fr = [(513, 530), (420, 437)]
    | Returns fr \<Rightarrow> False
    | Blocks fr \<Rightarrow> False)"
proof -
  have s0: "place_label 20 530 17 [] 530 = (513, 530)"
    by (simp add: place_eval)
  have s1: "place_label 20 530 17 [(513, 530)] 428 = (420, 437)"
    by (simp add: place_eval)
  show ?thesis
    by (simp add: pass_eval s0 s1 round_double_large [where k = 971]
          round_double_large [where k = 968] round_double_overflow)
       (simp add: pass_eval Let_def s0 s1 round_double_large [where k = 971]
          round_double_large [where k = 968] round_double_overflow)
qed

section \<open>Channels without samples\<close>

lemma legend_entry_drawn:
  "drawn (legend_entry fn y nc fr) =
     drawn fr @ [CanvasText (legend_x fr) y ''nw''
       (Legend (fst nc) (if items (vals (snd nc)) \<noteq> [] then FloatVal (last (items (vals (snd nc))))
                         else IntVal 0))
       (fst (assign_color (fst nc) (obj fr))) LegendFont]"
  by (cases "assign_color (fst nc) (obj fr)") (simp add: legend_entry_def Let_def)

lemma legend_entry_cursor:
  "legend_x (legend_entry fn y nc fr) =
     legend_x fr
     + int (legend_measure fn
         (Legend (fst nc) (if items (vals (snd nc)) \<noteq> [] then FloatVal (last (items (vals (snd nc))))
                           else IntVal 0)))
     + LEGEND_GAP"
  by (cases "assign_color (fst nc) (obj fr)") (simp add: legend_entry_def Let_def)

lemma draw_legend_mono: "set (drawn fr) \<subseteq> set (drawn (draw_legend fn y chs fr))"
  unfolding draw_legend_def
proof (induction chs arbitrary: fr)
  case Nil
  show ?case by simp
next
  case (Cons nc chs)
  have "set (drawn fr) \<subseteq> set (drawn (legend_entry fn y nc fr))"
    by (auto simp: legend_entry_drawn)
  also have "\<dots> \<subseteq> set (drawn (fold (legend_entry fn y) chs (legend_entry fn y nc fr)))"
    by (rule Cons.IH)
  finally show ?case by simp
qed

lemma draw_legend_member:
  "(name, ch) \<in> set chs \<Longrightarrow>
     \<exists>x col. CanvasText x y ''nw''
       (Legend name (if items (vals ch) \<noteq> [] then FloatVal (last (items (vals ch))) else IntVal 0))
       col LegendFont \<in> set (drawn (draw_legend fn y chs fr))"
proof (induction chs arbitrary: fr)
  case Nil
  then show ?case by simp
next
  case (Cons nc chs)
  show ?case
  proof (cases "nc = (name, ch)")
    case True
    have "CanvasText (legend_x fr) y ''nw''
        (Legend name (if items (vals ch) \<noteq> [] then FloatVal (last (items (vals ch))) else IntVal 0))
        (fst (assign_color name (obj fr))) LegendFont \<in> set (drawn (legend_entry fn y nc fr))"
      using True by (simp add: legend_entry_drawn)
    then have "CanvasText (legend_x fr) y ''nw''
        (Legend name (if items (vals ch) \<noteq> [] then FloatVal (last (items (vals ch))) else IntVal 0))
        (fst (assign_color name (obj fr))) LegendFont
        \<in> set (drawn (draw_legend fn y chs (legend_entry fn y nc fr)))"
      using draw_legend_mono by blast
    then show ?thesis unfolding draw_legend_def by (simp only: fold.simps comp_def) blast
  next
    case False
    then have "(name, ch) \<in> set chs" using Cons.prems by simp
    from Cons.IH [OF this, of "legend_entry fn y nc fr"]
    show ?thesis by (simp add: draw_legend_def)
  qed
qed

lemma render_locked_legend:
  assumes some: "concat (map (\<lambda>(name, ch). items (xs ch)) (channels (obj fr))) \<noteq> []"
    and ret: "render_locked fn left ytop right ybot fr = Returns fr'"
    and mem: "(name, ch) \<in> set (channels (obj fr))"
  shows "\<exists>x col. CanvasText x (ybot + 6) ''nw''
       (Legend name (if items (vals ch) \<noteq> [] then FloatVal (last (items (vals ch))) else IntVal 0))
       col LegendFont \<in> set (drawn fr')"
proof -
  obtain v l where c: "concat (map (\<lambda>(name, ch). items (xs ch)) (channels (obj fr))) = v # l"
    using some by (cases "concat (map (\<lambda>(name, ch). items (xs ch)) (channels (obj fr)))") auto
  define x_min where "x_min = fold min l v"
  define x_max where "x_max = (if x_min = fold max l v then x_min + 1 else fold max l v)"
  define r where "r = draw_channels fn left ytop right ybot x_min x_max (channels (obj fr)) fr"
  have rl: "render_locked fn left ytop right ybot fr =
      (case r of
         Returns fr1 \<Rightarrow>
           (case axis_seconds x_min x_max of
              Inl e \<Rightarrow> Raises e fr1
            | Inr (x_min_s, x_max_s) \<Rightarrow>
                (let fr2 = fr1\<lparr>drawn := drawn fr1 @
                       [CanvasText (left - 60) (ybot + 18) ''nw''
                          (Fixed 1 x_min_s '' s'') ''white'' GridFont,
                        CanvasText (right + 0) (ybot + 18) ''ne''
                          (Fixed 1 x_max_s '' s'') ''white'' GridFont],
                       legend_x := left\<rparr>
                 in Returns (draw_legend fn (ybot + 6) (channels (obj fr2)) fr2)))
       | Raises e fr1 \<Rightarrow> Raises e fr1
       | Blocks fr1 \<Rightarrow> Blocks fr1)"
    unfolding render_locked_def c r_def x_min_def x_max_def by (simp add: Let_def)
  from ret rl obtain fr1 where r1: "r = Returns fr1"
    by (cases r) auto
  from ret rl r1 obtain x_min_s x_max_s where ax: "axis_seconds x_min x_max = Inr (x_min_s, x_max_s)"
    by (cases "axis_seconds x_min x_max") auto
  have ch1: "channels (obj fr1) = channels (obj fr)"
    using draw_channels_channels [of fn left ytop right ybot x_min x_max "channels (obj fr)" fr] r1
    by (simp add: r_def)
  define fr2 where "fr2 = fr1\<lparr>drawn := drawn fr1 @
                  [CanvasText (left - 60) (ybot + 18) ''nw''
                     (Fixed 1 x_min_s '' s'') ''white'' GridFont,
                   CanvasText (right + 0) (ybot + 18) ''ne''
                     (Fixed 1 x_max_s '' s'') ''white'' GridFont],
                  legend_x := left\<rparr>"
  have "fr' = draw_legend fn (ybot + 6) (channels (obj fr)) fr2"
    using ret rl r1 ax ch1 by (simp add: Let_def fr2_def)
  then show ?thesis
    using draw_legend_member [OF mem, of "ybot + 6" fn fr2] by simp
qed

lemma update_canvas_legend:
  assumes size: "10 \<le> w" "10 \<le> h"
    and ret: "update_canvas fn w h st = Returns (draws, st')"
    and some: "concat (map (\<lambda>(name, ch). items (xs ch)) (channels st)) \<noteq> []"
    and mem: "(name, ch) \<in> set (channels st)"
  shows "\<exists>x col. CanvasText x (h - 70 + 6) ''nw''
       (Legend name (if items (vals ch) \<noteq> [] then FloatVal (last (items (vals ch))) else IntVal 0))
       col LegendFont \<in> set draws"
proof -
  define fr where "fr = \<lparr>drawn = [Rectangle 70 20 (w - 20) (h - 70)], placed_label_rects = [],
                          legend_x = 70, obj = st\<lparr>channels_lock := True\<rparr>\<rparr>"
  have uc: "update_canvas fn w h st =
      (if channels_lock st then Blocks ([Rectangle 70 20 (w - 20) (h - 70)], st)
       else
         (case render_locked fn 70 20 (w - 20) (h - 70) fr of
            Returns fr1 \<Rightarrow> Returns (drawn fr1, (obj fr1)\<lparr>channels_lock := False\<rparr>)
          | Raises e fr1 \<Rightarrow> Raises e (drawn fr1, (obj fr1)\<lparr>channels_lock := False\<rparr>)
          | Blocks fr1 \<Rightarrow> Blocks (drawn fr1, obj fr1)))"
    using size by (simp add: update_canvas_def Let_def fr_def)
  from ret uc obtain fr1 where r1: "render_locked fn 70 20 (w - 20) (h - 70) fr = Returns fr1"
    and d: "draws = drawn fr1"
    by (cases "channels_lock st"; cases "render_locked fn 70 20 (w - 20) (h - 70) fr") auto
  have "concat (map (\<lambda>(name, ch). items (xs ch)) (channels (obj fr))) \<noteq> []"
    and "(name, ch) \<in> set (channels (obj fr))"
    using some mem by (simp_all add: fr_def)
  from render_locked_legend [OF this(1) r1 this(2)] show ?thesis
    using d by simp
qed

lemma update_canvas_all_empty:
  assumes size: "10 \<le> w" "10 \<le> h" and free: "\<not> channels_lock st"
    and none: "concat (map (\<lambda>(name, ch). items (xs ch)) (channels st)) = []"
  shows "update_canvas fn w h st =
     Returns ([Rectangle 70 20 (w - 20) (h - 70),
               CanvasText 10 (h - 70 + 18) ''nw'' (Plain []) ''white'' GridFont], st)"
proof -
  have "st\<lparr>channels_lock := True, channels_lock := False\<rparr> = st"
    using free by simp
  then show ?thesis
    using size free unfolding update_canvas_def render_locked_def Let_def
    by (simp add: none)
qed


text \<open>
  One pass worked out: a canvas of 800 by 600 pixels, and a registry that holds \<open>B\<close>
  with no sample and then \<open>A\<close> with the value 5 at time 0. The time axis ends at
  \<^verbatim>\<open>1 / 1000.0\<close>, the double nearest to one thousandth.
\<close>

lemma pass_with_empty_channel:
  "update_canvas
      \<lparr>grid_linespace = 15, legend_measure = (\<lambda>l. 100), tip_linespace = 15,
         tip_measure = (\<lambda>l. 70)\<rparr> 800 600
      ((init \<lparr>arg_request_str = None, arg_cells = [], arg_file = None\<rparr>)
         \<lparr>channels :=
            [(''B'', \<lparr>addr = ''2'', xs = \<lparr>maxlen = 2000, items = []\<rparr>,
                       ys = \<lparr>maxlen = 2000, items = []\<rparr>,
                       vals = \<lparr>maxlen = 2000, items = []\<rparr>\<rparr>),
             (''A'', \<lparr>addr = ''1'', xs = \<lparr>maxlen = 2000, items = [0]\<rparr>,
                       ys = \<lparr>maxlen = 2000, items = [Fin 5]\<rparr>,
                       vals = \<lparr>maxlen = 2000, items = [Fin 5]\<rparr>\<rparr>)]\<rparr>)
   = Returns
      ([Rectangle 70 20 780 530,
        Line 70 530 780 530 ''#444444'',
        CanvasText 64 521 ''e'' (Fixed 2 (Fin 0) []) ''#e6194b'' GridFont,
        Line 70 428 780 428 ''#444444'',
        CanvasText 64 428 ''e'' (Fixed 2 (Fin 1) []) ''#e6194b'' GridFont,
        Line 70 326 780 326 ''#444444'',
        CanvasText 64 326 ''e'' (Fixed 2 (Fin 2) []) ''#e6194b'' GridFont,
        Line 70 224 780 224 ''#444444'',
        CanvasText 64 224 ''e'' (Fixed 2 (Fin 3) []) ''#e6194b'' GridFont,
        Line 70 122 780 122 ''#444444'',
        CanvasText 64 122 ''e'' (Fixed 2 (Fin 4) []) ''#e6194b'' GridFont,
        Line 70 71 780 71 ''#444444'',
        CanvasText 64 71 ''e'' (Fixed 2 (Fin (9 / 2)) []) ''#e6194b'' GridFont,
        CanvasText 10 548 ''nw'' (Fixed 1 (Fin 0) '' s'') ''white'' GridFont,
        CanvasText 780 548 ''ne''
          (Fixed 1 (Fin (1152921504606847 / 1152921504606846976)) '' s'') ''white'' GridFont,
        CanvasText 70 536 ''nw'' (Legend ''B'' (IntVal 0)) ''#3cb44b'' LegendFont,
        CanvasText 182 536 ''nw'' (Legend ''A'' (FloatVal (Fin 5))) ''#e6194b'' LegendFont],
       (init \<lparr>arg_request_str = None, arg_cells = [], arg_file = None\<rparr>)
         \<lparr>channels :=
            [(''B'', \<lparr>addr = ''2'', xs = \<lparr>maxlen = 2000, items = []\<rparr>,
                       ys = \<lparr>maxlen = 2000, items = []\<rparr>,
                       vals = \<lparr>maxlen = 2000, items = []\<rparr>\<rparr>),
             (''A'', \<lparr>addr = ''1'', xs = \<lparr>maxlen = 2000, items = [0]\<rparr>,
                       ys = \<lparr>maxlen = 2000, items = [Fin 5]\<rparr>,
                       vals = \<lparr>maxlen = 2000, items = [Fin 5]\<rparr>\<rparr>)],
           colors := [(''A'', ''#e6194b''), (''B'', ''#3cb44b'')],
           next_color := 2\<rparr>)"
proof -
  have s0: "place_label 20 530 17 [] 530 = (513, 530)"
    by (simp add: place_eval)
  have s1: "place_label 20 530 17 [(513, 530)] 428 = (420, 437)"
    by (simp add: place_eval)
  have s2: "place_label 20 530 17 [(513, 530), (420, 437)] 326 = (318, 335)"
    by (simp add: place_eval)
  have s3: "place_label 20 530 17 [(513, 530), (420, 437), (318, 335)] 224 = (216, 233)"
    by (simp add: place_eval)
  have s4: "place_label 20 530 17 [(513, 530), (420, 437), (318, 335), (216, 233)] 122 = (114, 131)"
    by (simp add: place_eval)
  have s5: "place_label 20 530 17 [(513, 530), (420, 437), (318, 335), (216, 233), (114, 131)] 71 = (63, 80)"
    by (simp add: place_eval)
  show ?thesis
    by (simp add: pass_eval s0 s1 s2 s3 s4 s5) (simp add: pass_eval Let_def)
qed


text \<open>
  Claim C5, as the code has it. A channel with no timestamps is passed over by the loop
  that draws the channels: no polyline, no grid line, no grid label, no colour, and the
  frame is as before. The legend loop does not pass it over: whenever the pass gets to
  the legend (some channel has a timestamp and nothing raises), the legend holds an
  entry for every registered channel, which for a channel with no values reads
  \<open>name: 0\<close>, and the legend cursor moves on by the width of that text and the gap.
  Only when no channel has a timestamp does the pass draw nothing for any channel: it
  stops after the frame of the plot and an empty placeholder text.
\<close>

theorem C5_empty_channel:
  "(items (xs ch) = [] \<longrightarrow>
      draw_channel fn left ytop right ybot x_min x_max (name, ch) fr = Returns fr)
   \<and> (10 \<le> w \<and> 10 \<le> h \<and> update_canvas fn w h st = Returns (draws, st')
        \<and> concat (map (\<lambda>(name, ch). items (xs ch)) (channels st)) \<noteq> []
        \<and> (name, ch) \<in> set (channels st) \<and> items (vals ch) = [] \<longrightarrow>
        (\<exists>x col. CanvasText x (h - 70 + 6) ''nw'' (Legend name (IntVal 0)) col LegendFont
           \<in> set draws))
   \<and> (items (vals ch) = [] \<longrightarrow>
        legend_x (legend_entry fn y (name, ch) fr) =
          legend_x fr + int (legend_measure fn (Legend name (IntVal 0))) + LEGEND_GAP)
   \<and> (10 \<le> w \<and> 10 \<le> h \<and> \<not> channels_lock st
        \<and> concat (map (\<lambda>(name, ch). items (xs ch)) (channels st)) = [] \<longrightarrow>
        update_canvas fn w h st =
          Returns ([Rectangle 70 20 (w - 20) (h - 70),
                    CanvasText 10 (h - 70 + 18) ''nw'' (Plain []) ''white'' GridFont], st))"
proof -
  have a: "items (xs ch) = [] \<longrightarrow>
      draw_channel fn left ytop right ybot x_min x_max (name, ch) fr = Returns fr"
    by (simp add: draw_channel_def)
  have b: "10 \<le> w \<and> 10 \<le> h \<and> update_canvas fn w h st = Returns (draws, st')
        \<and> concat (map (\<lambda>(name, ch). items (xs ch)) (channels st)) \<noteq> []
        \<and> (name, ch) \<in> set (channels st) \<and> items (vals ch) = [] \<longrightarrow>
        (\<exists>x col. CanvasText x (h - 70 + 6) ''nw'' (Legend name (IntVal 0)) col LegendFont
           \<in> set draws)"
  proof (intro impI, elim conjE)
    assume h: "10 \<le> w" "10 \<le> h" "update_canvas fn w h st = Returns (draws, st')"
      "concat (map (\<lambda>(name, ch). items (xs ch)) (channels st)) \<noteq> []"
      "(name, ch) \<in> set (channels st)" and e: "items (vals ch) = []"
    from update_canvas_legend [OF h] show
      "\<exists>x col. CanvasText x (h - 70 + 6) ''nw'' (Legend name (IntVal 0)) col LegendFont
           \<in> set draws"
      by (simp only: e) simp
  qed
  have c: "items (vals ch) = [] \<longrightarrow>
        legend_x (legend_entry fn y (name, ch) fr) =
          legend_x fr + int (legend_measure fn (Legend name (IntVal 0))) + LEGEND_GAP"
    by (simp add: legend_entry_cursor)
  have d: "10 \<le> w \<and> 10 \<le> h \<and> \<not> channels_lock st
        \<and> concat (map (\<lambda>(name, ch). items (xs ch)) (channels st)) = [] \<longrightarrow>
        update_canvas fn w h st =
          Returns ([Rectangle 70 20 (w - 20) (h - 70),
                    CanvasText 10 (h - 70 + 18) ''nw'' (Plain []) ''white'' GridFont], st)"
    using update_canvas_all_empty [of w h st fn] by blast
  show ?thesis using a b c d by blast
qed

text \<open>
  The theorem at the pass worked out above, for the channel \<open>B\<close>, and at the same
  poller with the channel \<open>B\<close> alone.
\<close>

theorem C5_empty_channel_witness:
  "(let fn = \<lparr>grid_linespace = 15, legend_measure = (\<lambda>l. 100), tip_linespace = 15,
               tip_measure = (\<lambda>l. 70)\<rparr>;
        b = \<lparr>addr = ''2'', xs = \<lparr>maxlen = 2000, items = []\<rparr>,
              ys = \<lparr>maxlen = 2000, items = []\<rparr>, vals = \<lparr>maxlen = 2000, items = []\<rparr>\<rparr>;
        a = \<lparr>addr = ''1'', xs = \<lparr>maxlen = 2000, items = [0]\<rparr>,
              ys = \<lparr>maxlen = 2000, items = [Fin 5]\<rparr>, vals = \<lparr>maxlen = 2000, items = [Fin 5]\<rparr>\<rparr>;
        st0 = init \<lparr>arg_request_str = None, arg_cells = [], arg_file = None\<rparr>;
        st = st0\<lparr>channels := [(''B'', b), (''A'', a)]\<rparr>;
        fr = \<lparr>drawn = [], placed_label_rects = [], legend_x = 70, obj = st\<rparr>
    in items (xs b) = [] \<and> items (vals b) = []
       \<and> draw_channel fn 70 20 780 530 0 1 (''B'', b) fr = Returns fr
       \<and> (\<exists>r. update_canvas fn 800 600 st = Returns r)
       \<and> (\<exists>x col. CanvasText x 536 ''nw'' (Legend ''B'' (IntVal 0)) col LegendFont
             \<in> set (fst (state_of (update_canvas fn 800 600 st))))
       \<and> legend_x (legend_entry fn 536 (''B'', b) fr) = 182
       \<and> update_canvas fn 800 600 (st0\<lparr>channels := [(''B'', b)]\<rparr>) =
           Returns ([Rectangle 70 20 780 530,
                     CanvasText 10 548 ''nw'' (Plain []) ''white'' GridFont],
                    st0\<lparr>channels := [(''B'', b)]\<rparr>))"
proof -
  define fn where "fn = \<lparr>grid_linespace = 15, legend_measure = (\<lambda>l :: label. 100 :: nat),
               tip_linespace = 15, tip_measure = (\<lambda>l :: label. 70 :: nat)\<rparr>"
  define b where "b = \<lparr>addr = ''2'', xs = \<lparr>maxlen = 2000, items = [] :: int list\<rparr>,
              ys = \<lparr>maxlen = 2000, items = [] :: pyfloat list\<rparr>,
              vals = \<lparr>maxlen = 2000, items = [] :: pyfloat list\<rparr>\<rparr>"
  define a where "a = \<lparr>addr = ''1'', xs = \<lparr>maxlen = 2000, items = [0 :: int]\<rparr>,
              ys = \<lparr>maxlen = 2000, items = [Fin 5]\<rparr>, vals = \<lparr>maxlen = 2000, items = [Fin 5]\<rparr>\<rparr>"
  define st0 where "st0 = init \<lparr>arg_request_str = None, arg_cells = [], arg_file = None\<rparr>"
  define st where "st = st0\<lparr>channels := [(''B'', b), (''A'', a)]\<rparr>"
  define st1 where "st1 = st0\<lparr>channels := [(''B'', b)]\<rparr>"
  define fr where "fr = \<lparr>drawn = [], placed_label_rects = [], legend_x = 70, obj = st\<rparr>"
  obtain draws st' where r: "update_canvas fn 800 600 st = Returns (draws, st')"
    using pass_with_empty_channel
    unfolding fn_def [symmetric] b_def [symmetric] a_def [symmetric] st0_def [symmetric]
      st_def [symmetric]
    by blast
  have e: "items (xs b) = []" "items (vals b) = []" "(''B'', b) \<in> set (channels st)"
      "concat (map (\<lambda>(name, ch). items (xs ch)) (channels st)) \<noteq> []"
      "\<not> channels_lock st1" "concat (map (\<lambda>(name, ch). items (xs ch)) (channels st1)) = []"
    by (simp_all add: b_def a_def st_def st1_def st0_def init_def)
  have m: "legend_measure fn (Legend ''B'' (IntVal 0)) = 100" "legend_x fr = 70"
    by (simp_all add: fn_def fr_def)
  have 1: "draw_channel fn 70 20 780 530 0 1 (''B'', b) fr = Returns fr"
    and 3: "legend_x (legend_entry fn 536 (''B'', b) fr) = 182"
    using C5_empty_channel [of b fn 70 20 780 530 0 1 "''B''" fr 800 600 st draws st' 536] e m
    by (simp_all add: LEGEND_GAP_def)
  have 2: "\<exists>x col. CanvasText x 536 ''nw'' (Legend ''B'' (IntVal 0)) col LegendFont \<in> set draws"
    using C5_empty_channel [of b fn 70 20 780 530 0 1 "''B''" fr 800 600 st draws st' 536] e r
    by simp
  have 4: "update_canvas fn 800 600 st1 =
           Returns ([Rectangle 70 20 780 530,
                     CanvasText 10 548 ''nw'' (Plain []) ''white'' GridFont], st1)"
    using C5_empty_channel [of b fn 70 20 780 530 0 1 "''B''" fr 800 600 st1 draws st' 536] e
    by simp
  show ?thesis
    unfolding Let_def fn_def [symmetric] b_def [symmetric] a_def [symmetric] st0_def [symmetric]
      st_def [symmetric] st1_def [symmetric] fr_def [symmetric]
    using e 1 2 3 4 r by simp
qed

text \<open>
  Where the claim fails: in the pass worked out above the channel \<open>B\<close> has no sample,
  and yet the legend starts with the text \<open>B: 0\<close> at pixel 70, and the entry of \<open>A\<close>
  follows at pixel 182, after the 100 pixels of that text and the gap of 12.
\<close>

theorem C5_empty_channel_legend_counterexample:
  "(let draws = fst (state_of (update_canvas
      \<lparr>grid_linespace = 15, legend_measure = (\<lambda>l. 100), tip_linespace = 15,
         tip_measure = (\<lambda>l. 70)\<rparr> 800 600
      ((init \<lparr>arg_request_str = None, arg_cells = [], arg_file = None\<rparr>)
         \<lparr>channels :=
            [(''B'', \<lparr>addr = ''2'', xs = \<lparr>maxlen = 2000, items = []\<rparr>,
                       ys = \<lparr>maxlen = 2000, items = []\<rparr>,
                       vals = \<lparr>maxlen = 2000, items = []\<rparr>\<rparr>),
             (''A'', \<lparr>addr = ''1'', xs = \<lparr>maxlen = 2000, items = [0]\<rparr>,
                       ys = \<lparr>maxlen = 2000, items = [Fin 5]\<rparr>,
                       vals = \<lparr>maxlen = 2000, items = [Fin 5]\<rparr>\<rparr>)]\<rparr>)))
    in CanvasText 70 536 ''nw'' (Legend ''B'' (IntVal 0)) ''#3cb44b'' LegendFont \<in> set draws
       \<and> CanvasText 182 536 ''nw'' (Legend ''A'' (FloatVal (Fin 5))) ''#e6194b'' LegendFont
           \<in> set draws)"
  unfolding pass_with_empty_channel by simp

section \<open>Grid labels\<close>

text \<open>
  What the probing loop and the clamp do by themselves. A label with at most 24 labels
  of its height placed before it leaves the loop at a place that overlaps none of them,
  and on a plot at least as high as a label the clamp puts every label within the
  plot.
\<close>

lemma probe_extent: "snd (probe placed text_h desired_top attempt top_candidate)
    = fst (probe placed text_h desired_top attempt top_candidate) + text_h"
proof (induction placed text_h desired_top attempt top_candidate rule: probe.induct)
  case (1 placed text_h desired_top attempt top_candidate)
  show ?case
  proof (cases "attempt < 50 \<and> overlaps placed top_candidate (top_candidate + text_h)")
    case True
    then show ?thesis
      using "1.IH" [OF _ _ refl] by (subst (1 2) probe.simps) (simp add: Let_def)
  next
    case False
    then show ?thesis by (subst (1 2) probe.simps) auto
  qed
qed

lemma offset_inj: "offset i = offset j \<Longrightarrow> i = j"
  by (auto simp: offset_def split: if_splits elim!: oddE evenE)

lemma candidate_Suc:
  "(if attempt mod 2 = 0 then desired_top - (int (attempt div 2) + 1) * (text_h + 2)
    else desired_top + (int (attempt div 2) + 1) * (text_h + 2))
   = candidate text_h desired_top (attempt + 1)"
proof (cases "even attempt")
  case True
  then have "attempt mod 2 = 0" "odd (Suc attempt)" "Suc attempt div 2 = attempt div 2"
    by presburger+
  then show ?thesis by (simp add: candidate_def offset_def algebra_simps)
next
  case False
  then have "attempt mod 2 \<noteq> 0" "even (Suc attempt)" "Suc attempt div 2 = attempt div 2 + 1"
    by presburger+
  then show ?thesis by (simp add: candidate_def offset_def algebra_simps)
qed

lemma probe_first_free:
  "attempt \<le> 50 \<Longrightarrow>
   \<exists>j. attempt \<le> j \<and> j \<le> 50
     \<and> probe placed text_h desired_top attempt (candidate text_h desired_top attempt)
         = (candidate text_h desired_top j, candidate text_h desired_top j + text_h)
     \<and> (j < 50 \<longrightarrow> \<not> overlaps placed (candidate text_h desired_top j)
                        (candidate text_h desired_top j + text_h))
     \<and> (j = 50 \<longrightarrow> (\<forall>i. attempt \<le> i \<and> i < 50 \<longrightarrow>
            overlaps placed (candidate text_h desired_top i)
              (candidate text_h desired_top i + text_h)))"
proof (induction "50 - attempt" arbitrary: attempt)
  case 0
  then have "attempt = 50" by simp
  then show ?case by (intro exI [of _ 50]) (auto simp: probe.simps)
next
  case (Suc n)
  then have lt: "attempt < 50" by simp
  show ?case
  proof (cases "overlaps placed (candidate text_h desired_top attempt)
                  (candidate text_h desired_top attempt + text_h)")
    case False
    then show ?thesis using lt
      by (intro exI [of _ attempt]) (simp add: probe.simps [of _ _ _ attempt])
  next
    case True
    have step: "probe placed text_h desired_top attempt (candidate text_h desired_top attempt)
        = probe placed text_h desired_top (attempt + 1)
            (candidate text_h desired_top (attempt + 1))"
      using lt True
      by (subst probe.simps) (simp only: if_True not_True_eq_False if_False Let_def candidate_Suc)
    from Suc have "n = 50 - (attempt + 1)" "attempt + 1 \<le> 50" by simp_all
    from Suc.hyps(1) [OF this] obtain j where j:
      "attempt + 1 \<le> j" "j \<le> 50"
      "probe placed text_h desired_top (attempt + 1) (candidate text_h desired_top (attempt + 1))
         = (candidate text_h desired_top j, candidate text_h desired_top j + text_h)"
      "j < 50 \<longrightarrow> \<not> overlaps placed (candidate text_h desired_top j)
                        (candidate text_h desired_top j + text_h)"
      "j = 50 \<longrightarrow> (\<forall>i. attempt + 1 \<le> i \<and> i < 50 \<longrightarrow>
            overlaps placed (candidate text_h desired_top i)
              (candidate text_h desired_top i + text_h))"
      by blast
    have "j = 50 \<longrightarrow> (\<forall>i. attempt \<le> i \<and> i < 50 \<longrightarrow>
            overlaps placed (candidate text_h desired_top i)
              (candidate text_h desired_top i + text_h))"
    proof (intro impI allI)
      fix i assume "j = 50" and i: "attempt \<le> i \<and> i < 50"
      show "overlaps placed (candidate text_h desired_top i)
              (candidate text_h desired_top i + text_h)"
      proof (cases "i = attempt")
        case True
        then show ?thesis using \<open>overlaps placed (candidate text_h desired_top attempt)
                  (candidate text_h desired_top attempt + text_h)\<close> by simp
      next
        case False
        then have "attempt + 1 \<le> i \<and> i < 50" using i by simp
        then show ?thesis using j(5) \<open>j = 50\<close> by blast
      qed
    qed
    then show ?thesis using j by (intro exI [of _ j]) (simp add: step)
  qed
qed

text \<open>One earlier label of the same height is in the way of at most two candidates.\<close>

lemma blocked_by_one:
  assumes h: "0 \<le> text_h"
  shows "card {i. i < (50::nat) \<and> lo \<le> candidate text_h desired_top i
               \<and> candidate text_h desired_top i \<le> lo + 2 * text_h + 2} \<le> 2"
proof -
  define s where "s = text_h + 2"
  define A where "A = {i. i < (50::nat) \<and> lo \<le> candidate text_h desired_top i
               \<and> candidate text_h desired_top i \<le> lo + 2 * text_h + 2}"
  define f where "f i = (candidate text_h desired_top i - lo) div s" for i
  have s: "0 < s" using h by (simp add: s_def)
  have f_eq: "f i = offset i + (desired_top - lo) div s" for i
  proof -
    have "candidate text_h desired_top i - lo = (desired_top - lo) + offset i * s"
      by (simp add: candidate_def s_def)
    then show ?thesis unfolding f_def using s by (simp only: div_mult_self1)
  qed
  have inj: "inj_on f A"
    by (rule inj_onI) (simp add: f_eq offset_inj)
  have img: "f ` A \<subseteq> {0, 1}"
  proof
    fix v assume "v \<in> f ` A"
    then obtain i where i: "i \<in> A" and v: "v = f i" by blast
    define x where "x = candidate text_h desired_top i - lo"
    have x: "0 \<le> x" "x < 2 * s" using i by (simp_all add: A_def x_def s_def)
    have "0 \<le> x div s" using x(1) s by (simp add: pos_imp_zdiv_nonneg_iff)
    moreover have "x div s < 2"
    proof (rule ccontr)
      assume "\<not> x div s < 2"
      then have "s * 2 \<le> s * (x div s)" using s by (intro mult_left_mono) simp_all
      moreover have "x = s * (x div s) + x mod s" by simp
      moreover have "0 \<le> x mod s" using s by simp
      ultimately show False using x(2) by linarith
    qed
    ultimately show "v \<in> {0, 1}" unfolding v f_def x_def [symmetric] by auto
  qed
  have "card A = card (f ` A)" using inj by (simp add: card_image)
  also have "\<dots> \<le> card {0::int, 1}" using img by (intro card_mono) simp_all
  finally show ?thesis unfolding A_def by simp
qed

lemma blocked_card:
  assumes h: "0 \<le> text_h"
  shows "list_all (\<lambda>(t, b). b - t = text_h) placed \<Longrightarrow>
     card (blocked placed text_h desired_top) \<le> 2 * length placed"
proof (induction placed)
  case Nil
  then show ?case by (simp add: blocked_def overlaps_def)
next
  case (Cons r placed)
  obtain t b where r: "r = (t, b)" by (cases r)
  have b: "b = t + text_h" using Cons.prems r by simp
  define A where "A = {i. i < (50::nat) \<and> t - text_h - 1 \<le> candidate text_h desired_top i
               \<and> candidate text_h desired_top i \<le> (t - text_h - 1) + 2 * text_h + 2}"
  have A: "card A \<le> 2" unfolding A_def using h by (rule blocked_by_one)
  have fin: "finite A" "finite (blocked placed text_h desired_top)"
    by (simp_all add: A_def blocked_def)
  have "blocked (r # placed) text_h desired_top = A \<union> blocked placed text_h desired_top"
    by (auto simp: blocked_def overlaps_def A_def r b)
  then have "card (blocked (r # placed) text_h desired_top)
      \<le> card A + card (blocked placed text_h desired_top)"
    by (simp add: card_Un_le)
  also have "\<dots> \<le> 2 + 2 * length placed"
    using A Cons.IH Cons.prems by simp
  finally show ?case by simp
qed

text \<open>With at most 24 earlier labels, the probing loop ends at a free place.\<close>

lemma probe_finds_free:
  assumes h: "0 \<le> text_h"
    and few: "length placed \<le> 24"
    and sized: "list_all (\<lambda>(t, b). b - t = text_h) placed"
  shows "\<not> overlaps placed (fst (probe placed text_h desired_top 0 desired_top))
             (snd (probe placed text_h desired_top 0 desired_top))"
proof -
  have c0: "candidate text_h desired_top 0 = desired_top"
    by (simp add: candidate_def offset_def)
  from probe_first_free [of 0 placed text_h desired_top] obtain j where j:
    "j \<le> 50"
    "probe placed text_h desired_top 0 desired_top
         = (candidate text_h desired_top j, candidate text_h desired_top j + text_h)"
    "j < 50 \<longrightarrow> \<not> overlaps placed (candidate text_h desired_top j)
                        (candidate text_h desired_top j + text_h)"
    "j = 50 \<longrightarrow> (\<forall>i. i < 50 \<longrightarrow>
            overlaps placed (candidate text_h desired_top i)
              (candidate text_h desired_top i + text_h))"
    unfolding c0 by auto
  have "j \<noteq> 50"
  proof
    assume "j = 50"
    then have "blocked placed text_h desired_top = {..<50}"
      using j(4) by (auto simp: blocked_def)
    then have "card (blocked placed text_h desired_top) = 50" by simp
    moreover have "card (blocked placed text_h desired_top) \<le> 2 * length placed"
      using h sized by (rule blocked_card)
    ultimately show False using few by simp
  qed
  then have "j < 50" using j(1) by simp
  then show ?thesis using j(2,3) by simp
qed


lemma probe_free:
  "\<not> overlaps placed desired_top (desired_top + text_h) \<Longrightarrow>
     probe placed text_h desired_top 0 desired_top = (desired_top, desired_top + text_h)"
  by (subst probe.simps) simp

lemma clamp_label_within:
  "snd c = fst c + text_h \<Longrightarrow> text_h \<le> ybot - ytop \<Longrightarrow>
     ytop \<le> fst (clamp_label ytop ybot text_h c) \<and> snd (clamp_label ytop ybot text_h c) \<le> ybot"
  by (auto simp: clamp_label_def Let_def)

lemma clamp_label_extent:
  "snd c = fst c + text_h \<Longrightarrow>
     snd (clamp_label ytop ybot text_h c) - fst (clamp_label ytop ybot text_h c) = text_h"
  by (auto simp: clamp_label_def Let_def)

lemma clamp_label_id:
  "ytop \<le> fst c \<Longrightarrow> snd c \<le> ybot \<Longrightarrow> clamp_label ytop ybot text_h c = c"
  by (auto simp: clamp_label_def Let_def)

lemma place_label_within:
  "text_h \<le> ybot - ytop \<Longrightarrow>
     ytop \<le> fst (place_label ytop ybot text_h placed y_canvas)
     \<and> snd (place_label ytop ybot text_h placed y_canvas) \<le> ybot"
  unfolding place_label_def by (rule clamp_label_within [OF probe_extent])

lemma place_label_extent:
  "snd (place_label ytop ybot text_h placed y_canvas)
     - fst (place_label ytop ybot text_h placed y_canvas) = text_h"
  unfolding place_label_def by (rule clamp_label_extent [OF probe_extent])

lemma grid_loop_within:
  assumes h: "int (grid_linespace fn) + 2 \<le> ybot - ytop"
  shows "labels_within fn ytop ybot fr \<Longrightarrow>
     labels_within fn ytop ybot
       (state_of (grid_loop fn left ytop right ybot y_max step color ls fr))"
proof (induction ls arbitrary: fr)
  case Nil
  then show ?case by simp
next
  case (Cons i ls)
  show ?case
  proof (cases "and_then (grid_value (Fin 0) y_max step i) (\<lambda>y_val.
             and_then (y_pixel ytop ybot (Fin 0) y_max y_val) (\<lambda>y_canvas.
               Inr (y_val, y_canvas)))")
    case (Inl e)
    then show ?thesis using Cons.prems by simp
  next
    case (Inr p)
    obtain y_val y_canvas where p: "p = (y_val, y_canvas)" by (cases p)
    define c where "c = place_label ytop ybot (int (grid_linespace fn) + 2)
                          (placed_label_rects fr) y_canvas"
    define fr1 where "fr1 = fr\<lparr>drawn := drawn fr @
                       [Line left y_canvas right y_canvas ''#444444'',
                        CanvasText (left - 6) (fst c + (int (grid_linespace fn) + 2) div 2) ''e''
                          (Fixed 2 y_val []) color GridFont],
                     placed_label_rects := placed_label_rects fr @ [c]\<rparr>"
    have "ytop \<le> fst c \<and> snd c \<le> ybot \<and> snd c - fst c = int (grid_linespace fn) + 2"
      unfolding c_def using place_label_within [OF h] place_label_extent by blast
    then have "labels_within fn ytop ybot fr1"
      using Cons.prems by (simp add: labels_within_def fr1_def case_prod_unfold)
    then have "labels_within fn ytop ybot
        (state_of (grid_loop fn left ytop right ybot y_max step color ls fr1))"
      by (rule Cons.IH)
    moreover have "grid_loop fn left ytop right ybot y_max step color (i # ls) fr
        = grid_loop fn left ytop right ybot y_max step color ls fr1"
      by (simp only: grid_loop.simps Inr p sum.case prod.case Let_def c_def [symmetric] fr1_def)
    ultimately show ?thesis by simp
  qed
qed

lemma draw_channel_within:
  assumes h: "int (grid_linespace fn) + 2 \<le> ybot - ytop"
    and fr: "labels_within fn ytop ybot fr"
  shows "labels_within fn ytop ybot
       (state_of (draw_channel fn left ytop right ybot x_min x_max nc fr))"
proof (cases "items (xs (snd nc)) = []")
  case True
  then show ?thesis using fr by (simp add: draw_channel_def)
next
  case False
  show ?thesis
  proof (cases "and_then (channel_y_max (snd nc)) (\<lambda>y_max.
                and_then (points left ytop right ybot x_min x_max y_max
                            (zip (items (xs (snd nc))) (items (vals (snd nc))))) (\<lambda>pts.
                  Inr (y_max, pts)))")
    case (Inl e)
    then show ?thesis using fr False by (simp add: draw_channel_def)
  next
    case (Inr p)
    obtain y_max pts where p: "p = (y_max, pts)" by (cases p)
    obtain color st1 where ac: "assign_color (fst nc) (obj fr) = (color, st1)"
      by (cases "assign_color (fst nc) (obj fr)")
    define fr1 where "fr1 = fr\<lparr>drawn := drawn fr @ polyline color pts, obj := st1\<rparr>"
    have fr1: "labels_within fn ytop ybot fr1"
      using fr by (simp add: labels_within_def fr1_def)
    have dc: "draw_channel fn left ytop right ybot x_min x_max nc fr =
        (case fdiv (fsub y_max (Fin 0)) (Fin (real GRID_LINES)) of
           Inl e \<Rightarrow> Raises e fr1
         | Inr step \<Rightarrow>
             grid_loop fn left ytop right ybot y_max step color [0 ..< GRID_LINES + 1] fr1)"
      unfolding draw_channel_def
      by (simp only: False if_False Inr p sum.case prod.case Let_def ac fr1_def)
    show ?thesis
      unfolding dc using fr1 grid_loop_within [OF h fr1]
      by (cases "fdiv (fsub y_max (Fin 0)) (Fin (real GRID_LINES))") simp_all
  qed
qed

lemma draw_channels_within:
  assumes h: "int (grid_linespace fn) + 2 \<le> ybot - ytop"
  shows "labels_within fn ytop ybot fr \<Longrightarrow>
     labels_within fn ytop ybot
       (state_of (draw_channels fn left ytop right ybot x_min x_max chs fr))"
proof (induction chs arbitrary: fr)
  case Nil
  then show ?case by simp
next
  case (Cons nc chs)
  have 1: "labels_within fn ytop ybot
      (state_of (draw_channel fn left ytop right ybot x_min x_max nc fr))"
    using h Cons.prems by (rule draw_channel_within)
  show ?case
  proof (cases "draw_channel fn left ytop right ybot x_min x_max nc fr")
    case (Returns fr1)
    then show ?thesis using 1 Cons.IH [of fr1] by simp
  next
    case (Raises e fr1)
    then show ?thesis using 1 by simp
  next
    case (Blocks fr1)
    then show ?thesis using 1 by simp
  qed
qed

text \<open>
  Claim C2. The code does not keep it: the clamp of lines 575 to 578 comes after the
  probing loop, and the place it gives is not tested against the labels placed before.
  Take two channels with samples on a canvas of 800 by 600 pixels, so a plot from pixel
  20 to pixel 530, with labels 17 pixels high, and the frame that \<open>update_canvas\<close>
  starts from under the lock. The lowest grid line of each channel is at pixel 530. For the second channel the probing loop finds the free place from 541
  to 558, below the plot, and the clamp moves it to the rectangle from 513 to 530,
  where the lowest label of the first channel stands: the seventh label of the pass
  lies on the first.
\<close>

theorem C2_clamp_overlaps_labels:
  "placed_label_rects (state_of (render_locked
      \<lparr>grid_linespace = 15, legend_measure = (\<lambda>l. 100), tip_linespace = 15,
         tip_measure = (\<lambda>l. 70)\<rparr> 70 20 780 530
      \<lparr>drawn = [Rectangle 70 20 780 530], placed_label_rects = [], legend_x = 70,
         obj = (init \<lparr>arg_request_str = None, arg_cells = [], arg_file = None\<rparr>)
           \<lparr>channels :=
              [(''V1'', \<lparr>addr = ''10'', xs = \<lparr>maxlen = 2000, items = [0, 1000, 2000]\<rparr>,
                  ys = \<lparr>maxlen = 2000, items = [Fin 5, Fin 5, Fin 10]\<rparr>,
                  vals = \<lparr>maxlen = 2000, items = [Fin 5, Fin (- 5), Fin 10]\<rparr>\<rparr>),
               (''V2'', \<lparr>addr = ''20'', xs = \<lparr>maxlen = 2000, items = [0, 1000, 2000]\<rparr>,
                  ys = \<lparr>maxlen = 2000, items = [Fin 1, Fin 2, Fin 4]\<rparr>,
                  vals = \<lparr>maxlen = 2000, items = [Fin 1, Fin 2, Fin 4]\<rparr>\<rparr>)],
             channels_lock := True\<rparr>\<rparr>))
   = [(513, 530), (420, 437), (318, 335), (216, 233), (114, 131), (63, 80),
      (513, 530), (401, 418), (299, 316), (197, 214), (95, 112), (44, 61)]
   \<and> probe [(513, 530), (420, 437), (318, 335), (216, 233), (114, 131), (63, 80)]
        17 522 0 522 = (541, 558)
   \<and> clamp_label 20 530 17 (541, 558) = (513, 530)
   \<and> overlaps [(513, 530), (420, 437), (318, 335), (216, 233), (114, 131), (63, 80)] 513 530"
proof -
  have s0: "place_label 20 530 17 [] 530 = (513, 530)"
    by (simp add: place_eval)
  have s1: "place_label 20 530 17 [(513, 530)] 428 = (420, 437)"
    by (simp add: place_eval)
  have s2: "place_label 20 530 17 [(513, 530), (420, 437)] 326 = (318, 335)"
    by (simp add: place_eval)
  have s3: "place_label 20 530 17 [(513, 530), (420, 437), (318, 335)] 224 = (216, 233)"
    by (simp add: place_eval)
  have s4: "place_label 20 530 17 [(513, 530), (420, 437), (318, 335), (216, 233)] 122
      = (114, 131)"
    by (simp add: place_eval)
  have s5: "place_label 20 530 17
      [(513, 530), (420, 437), (318, 335), (216, 233), (114, 131)] 71 = (63, 80)"
    by (simp add: place_eval)
  have s6: "place_label 20 530 17
      [(513, 530), (420, 437), (318, 335), (216, 233), (114, 131), (63, 80)] 530 = (513, 530)"
    by (simp add: place_eval)
  have s7: "place_label 20 530 17
      [(513, 530), (420, 437), (318, 335), (216, 233), (114, 131), (63, 80),
       (513, 530)] 428 = (401, 418)"
    by (simp add: place_eval)
  have s8: "place_label 20 530 17
      [(513, 530), (420, 437), (318, 335), (216, 233), (114, 131), (63, 80),
       (513, 530), (401, 418)] 326 = (299, 316)"
    by (simp add: place_eval)
  have s9: "place_label 20 530 17
      [(513, 530), (420, 437), (318, 335), (216, 233), (114, 131), (63, 80),
       (513, 530), (401, 418), (299, 316)] 224 = (197, 214)"
    by (simp add: place_eval)
  have s10: "place_label 20 530 17
      [(513, 530), (420, 437), (318, 335), (216, 233), (114, 131), (63, 80),
       (513, 530), (401, 418), (299, 316), (197, 214)] 122 = (95, 112)"
    by (simp add: place_eval)
  have s11: "place_label 20 530 17
      [(513, 530), (420, 437), (318, 335), (216, 233), (114, 131), (63, 80),
       (513, 530), (401, 418), (299, 316), (197, 214), (95, 112)] 71 = (44, 61)"
    by (simp add: place_eval)
  have a: "placed_label_rects (state_of (render_locked
      \<lparr>grid_linespace = 15, legend_measure = (\<lambda>l. 100), tip_linespace = 15,
         tip_measure = (\<lambda>l. 70)\<rparr> 70 20 780 530
      \<lparr>drawn = [Rectangle 70 20 780 530], placed_label_rects = [], legend_x = 70,
         obj = (init \<lparr>arg_request_str = None, arg_cells = [], arg_file = None\<rparr>)
           \<lparr>channels :=
              [(''V1'', \<lparr>addr = ''10'', xs = \<lparr>maxlen = 2000, items = [0, 1000, 2000]\<rparr>,
                  ys = \<lparr>maxlen = 2000, items = [Fin 5, Fin 5, Fin 10]\<rparr>,
                  vals = \<lparr>maxlen = 2000, items = [Fin 5, Fin (- 5), Fin 10]\<rparr>\<rparr>),
               (''V2'', \<lparr>addr = ''20'', xs = \<lparr>maxlen = 2000, items = [0, 1000, 2000]\<rparr>,
                  ys = \<lparr>maxlen = 2000, items = [Fin 1, Fin 2, Fin 4]\<rparr>,
                  vals = \<lparr>maxlen = 2000, items = [Fin 1, Fin 2, Fin 4]\<rparr>\<rparr>)],
             channels_lock := True\<rparr>\<rparr>))
   = [(513, 530), (420, 437), (318, 335), (216, 233), (114, 131), (63, 80),
      (513, 530), (401, 418), (299, 316), (197, 214), (95, 112), (44, 61)]"
    apply (simp add: pass_eval s0 s1 s2 s3 s4 s5)
    apply (simp add: pass_eval Let_def)
    apply (simp add: s6 s7 s8 s9 s10 s11)
    done
  have b: "probe [(513, 530), (420, 437), (318, 335), (216, 233), (114, 131), (63, 80)]
        17 522 0 522 = (541, 558)"
    by (simp add: probe.simps overlaps_def)
  have c: "clamp_label 20 530 17 (541, 558) = (513, 530)"
    by (simp add: clamp_label_def)
  have d: "overlaps [(513, 530), (420, 437), (318, 335), (216, 233), (114, 131), (63, 80)]
             513 530"
    by (simp add: overlaps_def)
  show ?thesis
    using a b c d by simp
qed

end
